theory Spec2Isabelle
  imports Main "HOL-Library.Sublist"
begin

section \<open>Strings\<close>

text \<open>
  A JavaScript string is modelled as a \<^typ>\<open>string\<close>: the list of its code units, each
  below 256 (the Latin-1 range). On that range \<open>String.prototype.trim\<close> and the regular
  expression class \<open>\s\<close> agree on seven white space characters, and
  \<open>toLowerCase\<close> maps a code unit to a code unit.
\<close>

definition isSpace :: "char \<Rightarrow> bool" where
  "isSpace c \<longleftrightarrow>
     c = CHR 0x09 \<or> c = CHR 0x0A \<or> c = CHR 0x0B \<or> c = CHR 0x0C \<or> c = CHR 0x0D \<or>
     c = CHR 0x20 \<or> c = CHR 0xA0"

definition trim :: "string \<Rightarrow> string" where
  "trim s = rev (dropWhile isSpace (rev (dropWhile isSpace s)))"

text \<open>\<open>s.replace(/\s+/g, ' ')\<close>: every maximal run of white space becomes one space.\<close>

fun collapse :: "string \<Rightarrow> string" where
  "collapse [] = []"
| "collapse [c] = (if isSpace c then [CHR 0x20] else [c])"
| "collapse (c # d # cs) =
     (if isSpace c then (if isSpace d then collapse (d # cs) else CHR 0x20 # collapse (d # cs))
      else c # collapse (d # cs))"

text \<open>\<open>function cleanText(text) { return text ? text.trim().replace(/\s+/g, ' ') : ''; }\<close>\<close>

definition cleanText :: "string \<Rightarrow> string" where
  "cleanText s = (if s \<noteq> [] then collapse (trim s) else [])"

definition startsWith :: "string \<Rightarrow> string \<Rightarrow> bool" where
  "startsWith s p \<longleftrightarrow> take (length p) s = p"

fun str_includes :: "string \<Rightarrow> string \<Rightarrow> bool" where
  "str_includes [] p = (p = [])"
| "str_includes (c # cs) p = (startsWith (c # cs) p \<or> str_includes cs p)"

definition toLowerChar :: "char \<Rightarrow> char" where
  "toLowerChar c =
     (let n = (of_char c :: nat)
      in if (65 \<le> n \<and> n \<le> 90) \<or> (192 \<le> n \<and> n \<le> 222 \<and> n \<noteq> 215)
         then char_of (n + 32) else c)"

definition toLowerCase :: "string \<Rightarrow> string" where
  "toLowerCase s = map toLowerChar s"

text \<open>The value of \<open>a || b\<close> on attribute values: \<open>undefined\<close> and \<open>''\<close> are falsy.\<close>

definition truthy :: "string option \<Rightarrow> bool" where
  "truthy v = (case v of None \<Rightarrow> False | Some s \<Rightarrow> s \<noteq> [])"

definition orElse :: "string option \<Rightarrow> string option \<Rightarrow> string option" where
  "orElse a b = (if truthy a then a else b)"

section \<open>The parsed document\<close>

text \<open>
  The markup parser is outside the program. A document is the list of its elements in
  document order, each with its tag name, its attributes and its text content (the text of
  the element and of its descendants), which is all the selectors of the program read.
\<close>

record element =
  tagName :: string
  attribs :: "(string \<times> string) list"
  textContent :: string

type_synonym document = "element list"

text \<open>\<open>$(elem).attr(name)\<close>\<close>

definition attr :: "element \<Rightarrow> string \<Rightarrow> string option" where
  "attr e n = map_of (attribs e) n"

text \<open>\<open>$('tag')\<close>\<close>

definition selectTag :: "string \<Rightarrow> document \<Rightarrow> element list" where
  "selectTag t doc = filter (\<lambda>e. tagName e = t) doc"

text \<open>\<open>$('tag[name="value"]')\<close>\<close>

definition selectAttrEq :: "string \<Rightarrow> string \<Rightarrow> string \<Rightarrow> document \<Rightarrow> element list" where
  "selectAttrEq t n v doc = filter (\<lambda>e. tagName e = t \<and> attr e n = Some v) doc"

text \<open>\<open>$('a[href]')\<close>\<close>

definition selectHasAttr :: "string \<Rightarrow> string \<Rightarrow> document \<Rightarrow> element list" where
  "selectHasAttr t n doc = filter (\<lambda>e. tagName e = t \<and> attr e n \<noteq> None) doc"

text \<open>\<open>$('h1, h2, h3, h4, h5, h6')\<close>\<close>

definition selectHeadings :: "document \<Rightarrow> element list" where
  "selectHeadings doc =
     filter (\<lambda>e. tagName e \<in> set [''h1'', ''h2'', ''h3'', ''h4'', ''h5'', ''h6'']) doc"

text \<open>\<open>.attr(name)\<close> of a selection reads the first selected element only.\<close>

definition selAttr :: "element list \<Rightarrow> string \<Rightarrow> string option" where
  "selAttr sel n = (case sel of [] \<Rightarrow> None | e # _ \<Rightarrow> attr e n)"

text \<open>\<open>.text()\<close> of a selection is the combined text of every selected element.\<close>

definition selText :: "element list \<Rightarrow> string" where
  "selText sel = concat (map textContent sel)"

section \<open>The platform\<close>

text \<open>
  The URL parser, the HTTP client and the clock are outside the program: they are
  parameters of the model. \<open>parseURL s\<close> is \<open>new URL(s)\<close> and \<open>resolveURL r b\<close> is
  \<open>new URL(r, b).href\<close>; \<open>None\<close> is the \<open>TypeError\<close> the constructor throws.
\<close>

record URL =
  protocol :: string
  host :: string
  hostname :: string
  origin :: string

datatype fetch_error =
    ENOTFOUND | ECONNREFUSED | ETIMEDOUT | HttpStatus nat string | OtherError string

record response =
  data :: document
  status :: nat
  contentTypeHeader :: "string option"

record platform =
  parseURL :: "string \<Rightarrow> URL option"
  resolveURL :: "string \<Rightarrow> string \<Rightarrow> string option"
  httpGet :: "string \<Rightarrow> fetch_error + response"
  now :: string

section \<open>Extraction\<close>

datatype js_error = InvalidURL

text \<open>A \<open>.each\<close> loop whose callback may throw: the first throw ends the loop.\<close>

fun each :: "('s \<Rightarrow> 'e \<Rightarrow> js_error + 's) \<Rightarrow> 'e list \<Rightarrow> 's \<Rightarrow> js_error + 's" where
  "each f [] s = Inr s"
| "each f (x # xs) s = (case f s x of Inl e \<Rightarrow> Inl e | Inr s' \<Rightarrow> each f xs s')"

text \<open>
  What the \<open>Handle relative URLs\<close> block of a callback does with a reference: it leaves
  a new value in the variable, or returns from the callback (the item is skipped), or
  throws (\<open>new URL(baseUrl)\<close> stands outside the \<open>try\<close>).
\<close>

datatype resolution = Resolved string | Skipped | Threw

definition resolveSrc :: "platform \<Rightarrow> string \<Rightarrow> string \<Rightarrow> resolution" where
  "resolveSrc pf baseUrl src =
     (if startsWith src ''/'' then
        (case parseURL pf baseUrl of
           None \<Rightarrow> Threw
         | Some urlObj \<Rightarrow> Resolved (protocol urlObj @ ''//'' @ host urlObj @ src))
      else if \<not> startsWith src ''http'' then
        (case resolveURL pf src baseUrl of None \<Rightarrow> Skipped | Some h \<Rightarrow> Resolved h)
      else Resolved src)"

definition resolveHref :: "platform \<Rightarrow> string \<Rightarrow> string \<Rightarrow> resolution" where
  "resolveHref pf baseUrl href =
     (if startsWith href ''/'' then
        (case parseURL pf baseUrl of
           None \<Rightarrow> Threw
         | Some urlObj \<Rightarrow> Resolved (protocol urlObj @ ''//'' @ host urlObj @ href))
      else if \<not> startsWith href ''http'' \<and> \<not> startsWith href ''mailto''
              \<and> \<not> startsWith href ''tel'' then
        (case resolveURL pf href baseUrl of None \<Rightarrow> Skipped | Some h \<Rightarrow> Resolved h)
      else Resolved href)"

record image =
  src :: string
  alt :: string

text \<open>The exclusion filter of \<open>extractImages\<close>, on the resolved source and the raw alt.\<close>

definition keepImage :: "string \<Rightarrow> string \<Rightarrow> bool" where
  "keepImage s a \<longleftrightarrow>
     \<not> str_includes s ''icon'' \<and> \<not> str_includes s ''logo'' \<and> \<not> str_includes s ''favicon'' \<and>
     \<not> str_includes s ''pixel'' \<and> \<not> str_includes (toLowerCase a) ''icon'' \<and>
     \<not> str_includes (toLowerCase a) ''logo''"

text \<open>The source attribute of an image element and its alt attribute, as the callback reads them.\<close>

definition imgSrcAttr :: "element \<Rightarrow> string option" where
  "imgSrcAttr img = orElse (orElse (attr img ''src'') (attr img ''data-src'')) (attr img ''data-lazy'')"

definition imgAltAttr :: "element \<Rightarrow> string" where
  "imgAltAttr img = (case orElse (attr img ''alt'') (Some []) of None \<Rightarrow> [] | Some a \<Rightarrow> a)"

text \<open>The callback of \<open>$('img').each\<close>; the state is \<open>(images, seenImages)\<close>.\<close>

definition imgStep ::
  "platform \<Rightarrow> string \<Rightarrow> image list \<times> string set \<Rightarrow> element \<Rightarrow> js_error + image list \<times> string set"
where
  "imgStep pf baseUrl st img =
     (case st of (images, seenImages) \<Rightarrow>
        (case imgSrcAttr img of
           None \<Rightarrow> Inr st
         | Some s0 \<Rightarrow>
             if s0 \<noteq> [] \<and> s0 \<notin> seenImages then
               (case resolveSrc pf baseUrl s0 of
                  Threw \<Rightarrow> Inl InvalidURL
                | Skipped \<Rightarrow> Inr st
                | Resolved s \<Rightarrow>
                    if keepImage s (imgAltAttr img)
                    then Inr (images @ [\<lparr>src = s, alt = cleanText (imgAltAttr img)\<rparr>],
                              insert s seenImages)
                    else Inr st)
             else Inr st))"

definition extractImages :: "platform \<Rightarrow> document \<Rightarrow> string \<Rightarrow> js_error + image list" where
  "extractImages pf doc baseUrl =
     (case each (imgStep pf baseUrl) (selectTag ''img'' doc) ([], {}) of
        Inl e \<Rightarrow> Inl e
      | Inr (images, seenImages) \<Rightarrow> Inr (take 10 images))"

record link =
  href :: string
  linkText :: string

text \<open>The callback of \<open>$('a[href]').each\<close>; the state is \<open>(links, seenLinks)\<close>.\<close>

definition linkStep ::
  "platform \<Rightarrow> string \<Rightarrow> link list \<times> string set \<Rightarrow> element \<Rightarrow> js_error + link list \<times> string set"
where
  "linkStep pf baseUrl st a =
     (case st of (links, seenLinks) \<Rightarrow>
        (let t = cleanText (textContent a) in
         case attr a ''href'' of
           None \<Rightarrow> Inr st
         | Some h0 \<Rightarrow>
             if h0 \<noteq> [] \<and> t \<noteq> [] \<and> h0 \<notin> seenLinks then
               (case resolveHref pf baseUrl h0 of
                  Threw \<Rightarrow> Inl InvalidURL
                | Skipped \<Rightarrow> Inr st
                | Resolved h \<Rightarrow>
                    if length t > 3 \<and> length t < 100
                    then Inr (links @ [\<lparr>href = h, linkText = t\<rparr>], insert h seenLinks)
                    else Inr st)
             else Inr st))"

definition extractLinks :: "platform \<Rightarrow> document \<Rightarrow> string \<Rightarrow> js_error + link list" where
  "extractLinks pf doc baseUrl =
     (case each (linkStep pf baseUrl) (selectHasAttr ''a'' ''href'' doc) ([], {}) of
        Inl e \<Rightarrow> Inl e
      | Inr (links, seenLinks) \<Rightarrow> Inr (take 20 links))"

record heading =
  level :: string
  headingText :: string

definition headingStep :: "heading list \<Rightarrow> element \<Rightarrow> heading list" where
  "headingStep headings h =
     (let t = cleanText (textContent h); l = toLowerCase (tagName h)
      in if t \<noteq> [] \<and> length t > 2 then headings @ [\<lparr>level = l, headingText = t\<rparr>]
         else headings)"

definition extractHeadings :: "document \<Rightarrow> heading list" where
  "extractHeadings doc = take 15 (foldl headingStep [] (selectHeadings doc))"

definition paragraphStep :: "string list \<Rightarrow> element \<Rightarrow> string list" where
  "paragraphStep paragraphs p =
     (let t = cleanText (textContent p)
      in if t \<noteq> [] \<and> length t > 20 \<and> length t < 500 then paragraphs @ [t] else paragraphs)"

definition extractParagraphs :: "document \<Rightarrow> string list" where
  "extractParagraphs doc = take 10 (foldl paragraphStep [] (selectTag ''p'' doc))"

text \<open>
  \<open>metaTags\<close> is a plain object, modelled by its own properties. The assignment
  \<open>metaTags[name] = content\<close> adds or replaces the property \<open>name\<close>, but for the
  name \<open>__proto__\<close>: that assignment goes to the prototype setter, which ignores a
  string, and the object stays as it is.
\<close>

definition metaStep :: "(string \<rightharpoonup> string) \<Rightarrow> element \<Rightarrow> (string \<rightharpoonup> string)" where
  "metaStep metaTags elem =
     (case (orElse (attr elem ''name'') (attr elem ''property''), attr elem ''content'') of
        (Some n, Some c) \<Rightarrow>
          if n \<noteq> [] \<and> c \<noteq> []
          then (if n = ''__proto__'' then metaTags else metaTags(n \<mapsto> c))
          else metaTags
      | _ \<Rightarrow> metaTags)"

definition extractMetaTags :: "document \<Rightarrow> (string \<rightharpoonup> string)" where
  "extractMetaTags doc = foldl metaStep Map.empty (selectTag ''meta'' doc)"

section \<open>The scraper\<close>

record ContentRecord =
  title :: string
  description :: string
  domain :: string
  url :: string
  metaTags :: "string \<rightharpoonup> string"
  images :: "image list"
  links :: "link list"
  headings :: "heading list"
  paragraphs :: "string list"
  bodyText :: string
  scrapedAt :: string
  responseStatus :: nat
  contentType :: string

text \<open>The error \<open>scrapeWebpage\<close> throws from its \<open>catch\<close> block, by its message.\<close>

datatype scrape_error =
    WebsiteNotFound | ConnectionRefused | RequestTimedOut | HttpFailure nat string
  | FailedToScrape string

definition rethrow :: "fetch_error \<Rightarrow> scrape_error" where
  "rethrow e =
     (case e of
        ENOTFOUND \<Rightarrow> WebsiteNotFound
      | ECONNREFUSED \<Rightarrow> ConnectionRefused
      | ETIMEDOUT \<Rightarrow> RequestTimedOut
      | HttpStatus st txt \<Rightarrow> HttpFailure st txt
      | OtherError msg \<Rightarrow> FailedToScrape msg)"

text \<open>The description before cleaning: the \<open>||\<close> chain over the two meta selections.\<close>

definition rawDescription :: "document \<Rightarrow> string" where
  "rawDescription doc =
     (case orElse (orElse (selAttr (selectAttrEq ''meta'' ''name'' ''description'' doc) ''content'')
                          (selAttr (selectAttrEq ''meta'' ''property'' ''og:description'' doc) ''content''))
                  (Some ''No description available'') of
        None \<Rightarrow> [] | Some d \<Rightarrow> d)"

definition pageTitle :: "document \<Rightarrow> string" where
  "pageTitle doc =
     (let t = cleanText (selText (selectTag ''title'' doc))
      in if t \<noteq> [] then t else ''No title found'')"

text \<open>
  \<open>scrapeWebpage(url)\<close> awaits \<open>axios.get\<close> and runs without another await from
  there. \<open>scrapeSettled pf u res\<close> is what it returns or throws once \<open>axios.get\<close> has
  settled with \<open>res\<close>; \<open>scrapeWebpage pf u\<close> is the call as a whole, with what the
  platform's client answers for \<open>u\<close>.
\<close>

definition scrapeSettled ::
  "platform \<Rightarrow> string \<Rightarrow> fetch_error + response \<Rightarrow> scrape_error + ContentRecord"
where
  "scrapeSettled pf u res =
     (case res of
        Inl e \<Rightarrow> Inl (rethrow e)
      | Inr resp \<Rightarrow>
          (case parseURL pf u of
             None \<Rightarrow> Inl (FailedToScrape ''Invalid URL'')
           | Some urlObj \<Rightarrow>
               (let doc = data resp; baseUrl = origin urlObj in
                case extractImages pf doc baseUrl of
                  Inl e \<Rightarrow> Inl (FailedToScrape ''Invalid URL'')
                | Inr imgs \<Rightarrow>
                    (case extractLinks pf doc baseUrl of
                       Inl e \<Rightarrow> Inl (FailedToScrape ''Invalid URL'')
                     | Inr lnks \<Rightarrow>
                         Inr \<lparr>title = pageTitle doc,
                              description = cleanText (rawDescription doc),
                              domain = hostname urlObj,
                              url = u,
                              metaTags = extractMetaTags doc,
                              images = imgs,
                              links = lnks,
                              headings = extractHeadings doc,
                              paragraphs = extractParagraphs doc,
                              bodyText = take 1000 (cleanText (selText (selectTag ''body'' doc))),
                              scrapedAt = now pf,
                              responseStatus = status resp,
                              contentType = (case orElse (contentTypeHeader resp) (Some ''unknown'') of
                                               None \<Rightarrow> [] | Some c \<Rightarrow> c)\<rparr>))))"

definition scrapeWebpage :: "platform \<Rightarrow> string \<Rightarrow> scrape_error + ContentRecord" where
  "scrapeWebpage pf u = scrapeSettled pf u (httpGet pf u)"

section \<open>The result cache and the scrape route\<close>

text \<open>
  \<open>scrapedResults\<close> is a JavaScript \<open>Map\<close>: its entries in insertion order, keys
  distinct. \<open>set\<close> on a key of the map replaces the value where the entry stands; on a
  new key it adds the entry last.
\<close>

type_synonym 'v cache = "(string \<times> 'v) list"

definition mapHas :: "'v cache \<Rightarrow> string \<Rightarrow> bool" where
  "mapHas m k \<longleftrightarrow> map_of m k \<noteq> None"

definition mapGet :: "'v cache \<Rightarrow> string \<Rightarrow> 'v option" where
  "mapGet m k = map_of m k"

fun mapSet :: "'v cache \<Rightarrow> string \<Rightarrow> 'v \<Rightarrow> 'v cache" where
  "mapSet [] k v = [(k, v)]"
| "mapSet ((k', v') # m) k v = (if k' = k then (k, v) # m else (k', v') # mapSet m k v)"

definition mapDelete :: "'v cache \<Rightarrow> string \<Rightarrow> 'v cache" where
  "mapDelete m k = filter (\<lambda>kv. fst kv \<noteq> k) m"

text \<open>
  \<open>scrapedResults.set(url, scrapedData)\<close> and the clean-up after it:
  \<open>if (scrapedResults.size > 50) { delete the first key }\<close>.
\<close>

definition storeResult :: "'v cache \<Rightarrow> string \<Rightarrow> 'v \<Rightarrow> 'v cache" where
  "storeResult m k v =
     (let m1 = mapSet m k v
      in if length m1 > 50
         then (case m1 of [] \<Rightarrow> m1 | (firstKey, _) # _ \<Rightarrow> mapDelete m1 firstKey)
         else m1)"

datatype reply =
    Json nat ContentRecord
  | JsonError nat string "scrape_error option"
  | JsonResults "ContentRecord list"
  | JsonMessage string

text \<open>
  \<open>app.post('/scrape')\<close>. In this model the body's \<open>url\<close> is a JSON string or
  missing; a body whose \<open>url\<close> is another JSON value is outside the model.

  The handler awaits \<open>scrapeWebpage(url)\<close> between \<open>scrapedResults.has(url)\<close> and
  \<open>scrapedResults.set(url, scrapedData)\<close>, so it runs in two parts, and other requests
  may run between them. \<open>scrapeArrives\<close> is the part before the await, on the cache as it
  is when the request arrives: it answers at once, or leaves the request waiting for the
  scrape of its URL. \<open>scrapeResumes\<close> is the part after the await, on the cache as it is
  when the scrape has settled.
\<close>

datatype arrival = Replied reply | Awaiting string

definition scrapeArrives :: "platform \<Rightarrow> ContentRecord cache \<Rightarrow> string option \<Rightarrow> arrival" where
  "scrapeArrives pf m body =
     (if \<not> truthy body then Replied (JsonError 400 ''URL is required'' None)
      else (case body of
              None \<Rightarrow> Replied (JsonError 400 ''URL is required'' None)
            | Some u \<Rightarrow>
                (case parseURL pf u of
                   None \<Rightarrow> Replied (JsonError 400 ''Invalid URL format'' None)
                 | Some _ \<Rightarrow>
                     (case mapGet m u of
                        Some cached \<Rightarrow> Replied (Json 200 cached)
                      | None \<Rightarrow> Awaiting u))))"

definition scrapeResumes ::
  "ContentRecord cache \<Rightarrow> string \<Rightarrow> scrape_error + ContentRecord \<Rightarrow> ContentRecord cache \<times> reply"
where
  "scrapeResumes m u outcome =
     (case outcome of
        Inl e \<Rightarrow> (m, JsonError 500 ''Failed to scrape webpage'' (Some e))
      | Inr scrapedData \<Rightarrow> (storeResult m u scrapedData, Json 200 scrapedData))"

text \<open>A request served alone: no other request runs while it waits for its scrape.\<close>

definition postScrape ::
  "platform \<Rightarrow> ContentRecord cache \<Rightarrow> string option \<Rightarrow> ContentRecord cache \<times> reply"
where
  "postScrape pf m body =
     (case scrapeArrives pf m body of
        Replied r \<Rightarrow> (m, r)
      | Awaiting u \<Rightarrow> scrapeResumes m u (scrapeWebpage pf u))"

text \<open>\<open>app.get('/results')\<close> and \<open>app.delete('/results')\<close>.\<close>

definition getResults :: "'v cache \<Rightarrow> 'v list" where
  "getResults m = map snd m"

definition deleteResults :: "'v cache \<Rightarrow> 'v cache" where
  "deleteResults m = []"

text \<open>
  The server between two events: the cache and the requests that wait for their scrape,
  each by its URL, in the order they arrived. An event is a request to one of the routes,
  or the settling of \<open>axios.get\<close> for the \<open>n\<close>-th waiting request with a result; the
  handler of that request then runs to its end. \<open>serve\<close> is one event: the server after
  it and the reply it sends, if it sends one.
\<close>

record server =
  scrapedResults :: "ContentRecord cache"
  waiting :: "string list"

datatype event =
    PostScrape "string option"
  | Settles nat "fetch_error + response"
  | GetResults
  | DeleteResults

definition serve :: "platform \<Rightarrow> server \<Rightarrow> event \<Rightarrow> server \<times> reply option" where
  "serve pf s ev =
     (case ev of
        PostScrape body \<Rightarrow>
          (case scrapeArrives pf (scrapedResults s) body of
             Replied r \<Rightarrow> (s, Some r)
           | Awaiting u \<Rightarrow> (s\<lparr>waiting := waiting s @ [u]\<rparr>, None))
      | Settles n res \<Rightarrow>
          if n < length (waiting s) then
            (let u = waiting s ! n;
                 (m, r) = scrapeResumes (scrapedResults s) u (scrapeSettled pf u res)
             in (\<lparr>scrapedResults = m, waiting = take n (waiting s) @ drop (Suc n) (waiting s)\<rparr>,
                 Some r))
          else (s, None)
      | GetResults \<Rightarrow> (s, Some (JsonResults (getResults (scrapedResults s))))
      | DeleteResults \<Rightarrow>
          (s\<lparr>scrapedResults := deleteResults (scrapedResults s)\<rparr>,
           Some (JsonMessage ''Results cleared'')))"

text \<open>A run of the server: the events one after the other.\<close>

definition run :: "platform \<Rightarrow> server \<Rightarrow> event list \<Rightarrow> server" where
  "run pf s evs = foldl (\<lambda>s ev. fst (serve pf s ev)) s evs"

section \<open>The specification's vocabulary\<close>

text \<open>
  The specification's text cleaning, in its own words: the words of a text are its maximal
  runs of characters that are not white space; the cleaned text is the words joined by
  single spaces. \<open>wordsFrom cur s\<close> reads \<open>s\<close> with the word \<open>cur\<close> under way.
\<close>

primrec wordsFrom :: "string \<Rightarrow> string \<Rightarrow> string list" where
  "wordsFrom cur [] = (if cur = [] then [] else [cur])"
| "wordsFrom cur (c # cs) =
     (if isSpace c then (if cur = [] then wordsFrom [] cs else cur # wordsFrom [] cs)
      else wordsFrom (cur @ [c]) cs)"

fun joinWords :: "string list \<Rightarrow> string" where
  "joinWords [] = []"
| "joinWords [w] = w"
| "joinWords (w # v # ws) = w @ CHR 0x20 # joinWords (v # ws)"

definition normalizeSpace :: "string \<Rightarrow> string" where
  "normalizeSpace s = joinWords (wordsFrom [] s)"

text \<open>
  What an image or anchor element contributes when nothing was seen before it: the entry
  the callback would push, regardless of the elements before it. The filtered results in
  document order are these, element by element.
\<close>

definition imgCandidate :: "platform \<Rightarrow> string \<Rightarrow> element \<Rightarrow> image option" where
  "imgCandidate pf baseUrl img =
     (case imgSrcAttr img of
        None \<Rightarrow> None
      | Some s0 \<Rightarrow>
          if s0 = [] then None
          else (case resolveSrc pf baseUrl s0 of
                  Resolved s \<Rightarrow>
                    if keepImage s (imgAltAttr img)
                    then Some \<lparr>src = s, alt = cleanText (imgAltAttr img)\<rparr> else None
                | _ \<Rightarrow> None))"

definition linkCandidate :: "platform \<Rightarrow> string \<Rightarrow> element \<Rightarrow> link option" where
  "linkCandidate pf baseUrl a =
     (case attr a ''href'' of
        None \<Rightarrow> None
      | Some h0 \<Rightarrow>
          if h0 = [] \<or> cleanText (textContent a) = [] then None
          else (case resolveHref pf baseUrl h0 of
                  Resolved h \<Rightarrow>
                    if length (cleanText (textContent a)) > 3 \<and> length (cleanText (textContent a)) < 100
                    then Some \<lparr>href = h, linkText = cleanText (textContent a)\<rparr> else None
                | _ \<Rightarrow> None))"

section \<open>Example inputs\<close>

text \<open>
  A platform for the examples: \<open>https://example.com/page\<close> serves the given document and
  no other page exists; the URL constructor is given on the inputs the examples use (it
  parses three URLs of the site and, against the origin of the site, resolves a plain
  relative path, a path with a \<open>..\<close> segment and a reference that begins with \<open>//\<close>,
  and rejects \<open>ftp://\<close>, which has no host).
\<close>

definition node :: "string \<Rightarrow> (string \<times> string) list \<Rightarrow> string \<Rightarrow> element" where
  "node t as txt = \<lparr>tagName = t, attribs = as, textContent = txt\<rparr>"

definition exampleURL :: URL where
  "exampleURL = \<lparr>protocol = ''https:'', host = ''example.com'', hostname = ''example.com'',
                  origin = ''https://example.com''\<rparr>"

definition examplePlatform :: "document \<Rightarrow> platform" where
  "examplePlatform doc =
     \<lparr>parseURL = (\<lambda>s. if s = ''https://example.com'' \<or> s = ''https://example.com/page''
                          \<or> s = ''https://example.com/other''
                       then Some exampleURL else None),
      resolveURL = (\<lambda>r b. if b = ''https://example.com'' then
                             (if r = ''ftp://'' then None
                              else if r = ''//cdn.example.org/a.png''
                              then Some ''https://cdn.example.org/a.png''
                              else if r = ''/a/../b.png'' then Some ''https://example.com/b.png''
                              else if startsWith r ''/'' then Some (b @ r)
                              else Some (b @ ''/'' @ r))
                           else None),
      httpGet = (\<lambda>u. if u = ''https://example.com/page''
                      then Inr \<lparr>data = doc, status = 200, contentTypeHeader = Some ''text/html''\<rparr>
                      else Inl ENOTFOUND),
      now = ''2024-01-01T00:00:00.000Z''\<rparr>"

definition capsDoc :: document where
  "capsDoc = replicate 12 (node ''p'' [] ''This paragraph has enough text.'')"

definition twoTitlesDoc :: document where
  "twoTitlesDoc = [node ''title'' [] ''Home'', node ''title'' [] ''Menu'']"

definition blankDescriptionDoc :: document where
  "blankDescriptionDoc = [node ''meta'' [(''name'', ''description''), (''content'', ''   '')] []]"

definition sameImageTwiceDoc :: document where
  "sameImageTwiceDoc =
     [node ''img'' [(''src'', ''/a.png''), (''alt'', ''first'')] [],
      node ''img'' [(''src'', ''/a.png''), (''alt'', ''second'')] []]"

definition helloDoc :: document where
  "helloDoc = [node ''title'' [] ''  Hello   World '']"

definition mixedRefsDoc :: document where
  "mixedRefsDoc =
     [node ''img'' [(''src'', ''photo.png'')] [],
      node ''img'' [(''src'', ''ftp://'')] [],
      node ''img'' [(''src'', ''/b.png'')] []]"

text \<open>
  Two answers of the page, and the server before any request and after one request for
  the page has been served.
\<close>

definition helloResponse :: response where
  "helloResponse = \<lparr>data = helloDoc, status = 200, contentTypeHeader = Some ''text/html''\<rparr>"

definition twoTitlesResponse :: response where
  "twoTitlesResponse = \<lparr>data = twoTitlesDoc, status = 200, contentTypeHeader = Some ''text/html''\<rparr>"

definition idleServer :: server where
  "idleServer = \<lparr>scrapedResults = [], waiting = []\<rparr>"

definition servedOnce :: server where
  "servedOnce =
     run (examplePlatform []) idleServer
       [PostScrape (Some ''https://example.com/page''), Settles 0 (Inr helloResponse)]"

text \<open>A cache at capacity: fifty entries under fifty keys.\<close>

definition demoCache :: "nat cache" where
  "demoCache = map (\<lambda>i. (''https://example.com/p'' @ replicate i CHR ''x'', i)) [0..<50]"

section \<open>Properties of the result cache\<close>

lemma mapSet_fresh: "k \<notin> set (map fst m) \<Longrightarrow> mapSet m k v = m @ [(k, v)]"
  by (induction m) auto

lemma mapSet_keys: "k \<in> set (map fst m) \<Longrightarrow> map fst (mapSet m k v) = map fst m"
  by (induction m) force+

lemma map_of_mapSet: "map_of (mapSet m k v) = (map_of m)(k \<mapsto> v)"
  by (induction m) auto

lemma mapSet_in_place:
  "k \<in> set (map fst m) \<Longrightarrow> \<exists>i<length m. fst (m ! i) = k \<and> (\<forall>j<i. fst (m ! j) \<noteq> k) \<and> mapSet m k v = m[i := (k, v)]"
proof (induction m)
  case Nil
  then show ?case by simp
next
  case (Cons a m)
  show ?case
  proof (cases "fst a = k")
    case True
    then show ?thesis by (cases a) (auto intro!: exI[of _ 0])
  next
    case False
    with Cons obtain i where i: "i < length m" "fst (m ! i) = k" "\<forall>j<i. fst (m ! j) \<noteq> k" "mapSet m k v = m[i := (k, v)]"
      by auto
    show ?thesis
      apply (rule exI[of _ "Suc i"])
      using i False by (cases a) (auto simp: less_Suc_eq_0_disj)
  qed
qed

lemma map_of_mapDelete: "map_of (mapDelete m k) = (map_of m)(k := None)"
  by (induction m) (auto simp: mapDelete_def)

lemma storeResult_cases:
  "storeResult m k v =
     (if length (mapSet m k v) > 50 then mapDelete (mapSet m k v) (fst (hd (mapSet m k v)))
      else mapSet m k v)"
  by (cases "mapSet m k v") (auto simp: storeResult_def Let_def)

lemma hd_mapSet: "m \<noteq> [] \<Longrightarrow> fst (hd (mapSet m k v)) = fst (hd m)"
  by (cases m) auto

lemma storeResult_keeps_new:
  assumes "mapGet m k = None"
  shows "mapGet (storeResult m k v) k = Some v"
proof (cases "length (mapSet m k v) > 50")
  case False
  then show ?thesis by (simp add: storeResult_cases mapGet_def map_of_mapSet)
next
  case True
  have nk: "k \<notin> set (map fst m)"
    using assms by (simp add: mapGet_def map_of_eq_None_iff)
  from True have ne: "m \<noteq> []" by (cases m) auto
  then have "fst (hd m) \<in> set (map fst m)" by (cases m) auto
  with nk have "fst (hd m) \<noteq> k" by auto
  with True ne show ?thesis
    by (simp add: storeResult_cases mapGet_def map_of_mapDelete map_of_mapSet hd_mapSet)
qed

lemma demoCache_length: "length demoCache = 50"
  by (simp add: demoCache_def)

lemma demoCache_distinct: "distinct (map fst demoCache)"
proof -
  have "inj_on (\<lambda>i. ''https://example.com/p'' @ replicate i CHR ''x'') (set [0..<50])"
    by (rule inj_onI) (metis length_replicate same_append_eq)
  then show ?thesis
    by (simp add: demoCache_def comp_def distinct_map)
qed

lemma demoCache_fresh: "''https://example.com/new'' \<notin> set (map fst demoCache)"
  by (auto simp: demoCache_def)

lemma demoCache_present: "''https://example.com/pxx'' \<in> set (map fst demoCache)"
proof -
  have "''https://example.com/pxx'' = ''https://example.com/p'' @ replicate 2 CHR ''x''"
    by (simp add: numeral_2_eq_2)
  then show ?thesis
    unfolding demoCache_def by (auto simp: image_iff intro!: bexI[of _ 2])
qed

text \<open>
  C3. In a cache of exactly 50 distinct keys, storing a result under a key that is not in
  the cache removes exactly the first entry (the oldest inserted) and adds the new entry
  last: the other 49 entries keep their values and their order.
\<close>

theorem cache_insert_evicts_oldest: 
  assumes "length m = 50" and "distinct (map fst m)" and "k \<notin> set (map fst m)"
  shows "storeResult m k v = tl m @ [(k, v)] \<and>
         map fst (storeResult m k v) = tl (map fst m) @ [k] \<and>
         \<not> mapHas (storeResult m k v) (fst (hd m)) \<and>
         (\<forall>k'. k' \<noteq> fst (hd m) \<longrightarrow> k' \<noteq> k \<longrightarrow> mapGet (storeResult m k v) k' = mapGet m k') \<and>
         mapGet (storeResult m k v) k = Some v \<and>
         length (storeResult m k v) = 50"
proof -
  from assms(1) obtain a m' where m: "m = a # m'" by (cases m) auto
  obtain k0 v0 where a: "a = (k0, v0)" by (cases a)
  from assms m a have d: "k0 \<notin> set (map fst m')" "k0 \<noteq> k" "k \<notin> set (map fst m')" "length m' = 49" by auto
  have del: "filter (\<lambda>kv. fst kv \<noteq> k0) m' = m'"
    using d(1) by (induction m') auto
  have s: "storeResult m k v = tl m @ [(k, v)]"
    using assms d del by (simp add: storeResult_def mapSet_fresh m a mapDelete_def)
  have g: "map_of m' k0 = None" "map_of m' k = None" using d by (simp_all add: map_of_eq_None_iff)
  have "map fst (tl m @ [(k, v)]) = tl (map fst m) @ [k]" by (simp add: m)
  moreover have "\<not> mapHas (tl m @ [(k, v)]) (fst (hd m))"
    using g d(2) by (simp add: m a mapHas_def map_add_def)
  moreover have "\<forall>k'. k' \<noteq> fst (hd m) \<longrightarrow> k' \<noteq> k \<longrightarrow> mapGet (tl m @ [(k, v)]) k' = mapGet m k'"
    by (simp add: m a mapGet_def map_add_def split: option.splits)
  moreover have "mapGet (tl m @ [(k, v)]) k = Some v"
    using g by (simp add: m a mapGet_def map_add_def)
  moreover have "length (tl m @ [(k, v)]) = 50" using assms(1) by (simp add: m)
  ultimately show ?thesis unfolding s by blast
qed

theorem cache_insert_evicts_oldest_witness:
  "storeResult demoCache ''https://example.com/new'' 7 = tl demoCache @ [(''https://example.com/new'', 7)] \<and>
   mapGet (storeResult demoCache ''https://example.com/new'' 7) ''https://example.com/new'' = Some 7 \<and>
   length (storeResult demoCache ''https://example.com/new'' 7) = 50"
  using cache_insert_evicts_oldest[OF demoCache_length demoCache_distinct demoCache_fresh, where v = 7] by blast

text \<open>
  C6. In a cache of exactly 50 distinct keys, storing a result under a key of the cache
  replaces the value where the entry stands: no entry is removed, and the keys and their
  order are unchanged.
\<close>

theorem cache_reinsert_in_place:
  assumes "length m = 50" and "distinct (map fst m)" and "k \<in> set (map fst m)"
  shows "map fst (storeResult m k v) = map fst m \<and>
         length (storeResult m k v) = 50 \<and>
         mapGet (storeResult m k v) k = Some v \<and>
         (\<forall>k'. k' \<noteq> k \<longrightarrow> mapGet (storeResult m k v) k' = mapGet m k') \<and>
         (\<exists>i<length m. fst (m ! i) = k \<and> storeResult m k v = m[i := (k, v)])"
proof -
  have len: "length (mapSet m k v) = 50"
    using mapSet_keys[OF assms(3), of v] assms(1) by (metis length_map)
  then have s: "storeResult m k v = mapSet m k v"
    by (simp add: storeResult_def)
  from mapSet_in_place[OF assms(3), of v] obtain i where
    i: "i < length m" "fst (m ! i) = k" "mapSet m k v = m[i := (k, v)]" by blast
  have "mapGet (mapSet m k v) k = Some v"
    and "\<forall>k'. k' \<noteq> k \<longrightarrow> mapGet (mapSet m k v) k' = mapGet m k'"
    by (simp_all add: mapGet_def map_of_mapSet)
  moreover have "\<exists>i<length m. fst (m ! i) = k \<and> mapSet m k v = m[i := (k, v)]"
    using i by blast
  ultimately show ?thesis unfolding s using len mapSet_keys[OF assms(3), of v] by blast
qed

theorem cache_reinsert_in_place_witness:
  "map fst (storeResult demoCache ''https://example.com/pxx'' 7) = map fst demoCache \<and>
   length (storeResult demoCache ''https://example.com/pxx'' 7) = 50 \<and>
   mapGet (storeResult demoCache ''https://example.com/pxx'' 7) ''https://example.com/pxx'' = Some 7"
  using cache_reinsert_in_place[OF demoCache_length demoCache_distinct demoCache_present, where v = 7] by blast

section \<open>The scrape route\<close>

lemma mapGet_storeResult_other:
  assumes "(k::string) \<noteq> u"
  shows "mapGet (storeResult m u d) k =
           (if 50 < length (mapSet m u d) \<and> k = fst (hd m) then None else mapGet m k)"
proof (cases "50 < length (mapSet m u d)")
  case False
  then show ?thesis using assms by (simp add: storeResult_cases mapGet_def map_of_mapSet)
next
  case True
  then have "m \<noteq> []" by (cases m) auto
  then show ?thesis
    using True assms
    by (simp add: storeResult_cases mapGet_def map_of_mapDelete map_of_mapSet hd_mapSet)
qed

lemma scrapeArrives_hit:
  assumes "u \<noteq> []" "parseURL pf u \<noteq> None" "mapGet m u = Some r"
  shows "scrapeArrives pf m (Some u) = Replied (Json 200 r)"
  using assms by (auto simp: scrapeArrives_def truthy_def)

lemma scrapeArrives_awaiting:
  assumes "scrapeArrives pf m body = Awaiting u"
  shows "body = Some u \<and> u \<noteq> [] \<and> parseURL pf u \<noteq> None \<and> mapGet m u = None"
  using assms by (auto simp: scrapeArrives_def truthy_def split: if_splits option.splits)

lemma postScrape_served_alone:
  assumes "waiting s = []"
  shows "scrapedResults (run pf s
           (PostScrape body #
            (case scrapeArrives pf (scrapedResults s) body of
               Replied r \<Rightarrow> [] | Awaiting u \<Rightarrow> [Settles 0 (httpGet pf u)]))) =
         fst (postScrape pf (scrapedResults s) body)"
  using assms
  by (cases "scrapeArrives pf (scrapedResults s) body")
     (auto simp: run_def serve_def postScrape_def scrapeWebpage_def Let_def split: prod.splits)

text \<open>
  C9, as the code has it. The cache is written only when a scrape settles with a record:
  the arrival of a request never writes it, and a scrape that fails (a transport error, or
  an error thrown while scraping) leaves it as it is and is answered with an error; an
  invalid URL is answered on arrival. Apart from the clear-all route, an event changes the
  cache only by storing the record of a settled scrape under its URL, which leaves the
  values of all other keys alone (the oldest key is evicted over capacity). A request
  that arrives while its key is in the cache is answered with the stored record, starts
  no scrape and writes nothing; a request is left waiting for a scrape only when its key
  is not in the cache. So with requests served one after the other, a record once stored
  is what the next request for its key returns, whatever the page serves by then.
\<close>

theorem cache_written_only_by_settled_scrape:
  "(\<forall>body. scrapedResults (fst (serve pf s (PostScrape body))) = scrapedResults s) \<and>
   (\<forall>n e. scrapedResults (fst (serve pf s (Settles n (Inl e)))) = scrapedResults s) \<and>
   (\<forall>n res e. n < length (waiting s) \<longrightarrow> scrapeSettled pf (waiting s ! n) res = Inl e \<longrightarrow>
      scrapedResults (fst (serve pf s (Settles n res))) = scrapedResults s \<and>
      snd (serve pf s (Settles n res)) = Some (JsonError 500 ''Failed to scrape webpage'' (Some e))) \<and>
   (\<forall>ev. scrapedResults (fst (serve pf s ev)) \<noteq> scrapedResults s \<longrightarrow>
      ev = DeleteResults \<or>
      (\<exists>n res d. ev = Settles n res \<and> n < length (waiting s) \<and>
         scrapeSettled pf (waiting s ! n) res = Inr d \<and>
         serve pf s ev =
           (\<lparr>scrapedResults = storeResult (scrapedResults s) (waiting s ! n) d,
             waiting = take n (waiting s) @ drop (Suc n) (waiting s)\<rparr>,
            Some (Json 200 d)))) \<and>
   (\<forall>u r. u \<noteq> [] \<longrightarrow> parseURL pf u \<noteq> None \<longrightarrow> mapGet (scrapedResults s) u = Some r \<longrightarrow>
      serve pf s (PostScrape (Some u)) = (s, Some (Json 200 r))) \<and>
   (\<forall>body u. scrapeArrives pf (scrapedResults s) body = Awaiting u \<longrightarrow>
      mapGet (scrapedResults s) u = None \<and>
      serve pf s (PostScrape body) = (s\<lparr>waiting := waiting s @ [u]\<rparr>, None)) \<and>
   (\<forall>(m::ContentRecord cache) (u::string) d k. k \<noteq> u \<longrightarrow>
      mapGet (storeResult m u d) k =
        (if 50 < length (mapSet m u d) \<and> k = fst (hd m) then None else mapGet m k)) \<and>
   (\<forall>m u d m1 (pf'::platform). postScrape pf m (Some u) = (m1, Json 200 d) \<longrightarrow>
      parseURL pf' = parseURL pf \<longrightarrow> postScrape pf' m1 (Some u) = (m1, Json 200 d))"
proof (intro conjI allI impI)
  fix body
  show "scrapedResults (fst (serve pf s (PostScrape body))) = scrapedResults s"
    by (simp add: serve_def split: arrival.splits)
next
  fix n e
  show "scrapedResults (fst (serve pf s (Settles n (Inl e)))) = scrapedResults s"
    by (simp add: serve_def scrapeSettled_def scrapeResumes_def)
next
  fix n res e
  assume a: "n < length (waiting s)" "scrapeSettled pf (waiting s ! n) res = Inl e"
  show "scrapedResults (fst (serve pf s (Settles n res))) = scrapedResults s"
    using a by (simp add: serve_def scrapeResumes_def)
  show "snd (serve pf s (Settles n res)) = Some (JsonError 500 ''Failed to scrape webpage'' (Some e))"
    using a by (simp add: serve_def scrapeResumes_def)
next
  fix ev
  assume ch: "scrapedResults (fst (serve pf s ev)) \<noteq> scrapedResults s"
  show "ev = DeleteResults \<or>
      (\<exists>n res d. ev = Settles n res \<and> n < length (waiting s) \<and>
         scrapeSettled pf (waiting s ! n) res = Inr d \<and>
         serve pf s ev =
           (\<lparr>scrapedResults = storeResult (scrapedResults s) (waiting s ! n) d,
             waiting = take n (waiting s) @ drop (Suc n) (waiting s)\<rparr>,
            Some (Json 200 d)))"
  proof (cases ev)
    case (PostScrape body)
    with ch show ?thesis by (simp add: serve_def split: arrival.splits)
  next
    case (Settles n res)
    with ch have n: "n < length (waiting s)" by (auto simp: serve_def split: if_splits)
    show ?thesis
    proof (cases "scrapeSettled pf (waiting s ! n) res")
      case (Inl e)
      with ch Settles n show ?thesis by (simp add: serve_def scrapeResumes_def)
    next
      case (Inr d)
      with Settles n show ?thesis by (simp add: serve_def scrapeResumes_def)
    qed
  next
    case GetResults
    with ch show ?thesis by (simp add: serve_def)
  next
    case DeleteResults
    then show ?thesis by simp
  qed
next
  fix u r
  assume "u \<noteq> []" "parseURL pf u \<noteq> None" "mapGet (scrapedResults s) u = Some r"
  then show "serve pf s (PostScrape (Some u)) = (s, Some (Json 200 r))"
    by (simp add: serve_def scrapeArrives_hit)
next
  fix body u
  assume a: "scrapeArrives pf (scrapedResults s) body = Awaiting u"
  show "mapGet (scrapedResults s) u = None"
    using scrapeArrives_awaiting[OF a] by simp
  show "serve pf s (PostScrape body) = (s\<lparr>waiting := waiting s @ [u]\<rparr>, None)"
    using a by (simp add: serve_def)
next
  fix m :: "ContentRecord cache" and u d k
  assume "(k::string) \<noteq> u"
  then show "mapGet (storeResult m u d) k =
        (if 50 < length (mapSet m u d) \<and> k = fst (hd m) then None else mapGet m k)"
    by (rule mapGet_storeResult_other)
next
  fix m u d m1 and pf' :: platform
  assume p: "postScrape pf m (Some u) = (m1, Json 200 d)" and q: "parseURL pf' = parseURL pf"
  from p have ok: "u \<noteq> []" "parseURL pf u \<noteq> None"
    by (auto simp: postScrape_def scrapeArrives_def scrapeResumes_def truthy_def
             split: option.splits sum.splits if_splits)
  from p have "mapGet m1 u = Some d"
    by (auto simp: postScrape_def scrapeArrives_def scrapeResumes_def truthy_def storeResult_keeps_new
             split: option.splits sum.splits if_splits)
  with ok q show "postScrape pf' m1 (Some u) = (m1, Json 200 d)"
    by (simp add: postScrape_def scrapeArrives_hit)
qed

theorem cache_written_only_by_settled_scrape_witness:
  "(\<exists>r. scrapedResults servedOnce = [(''https://example.com/page'', r)] \<and>
        serve (examplePlatform []) servedOnce (PostScrape (Some ''https://example.com/page'')) =
          (servedOnce, Some (Json 200 r))) \<and>
   scrapedResults (fst (serve (examplePlatform [])
      (servedOnce\<lparr>waiting := [''https://example.com/other'']\<rparr>) (Settles 0 (Inl ENOTFOUND)))) =
     scrapedResults servedOnce \<and>
   snd (serve (examplePlatform [])
      (servedOnce\<lparr>waiting := [''https://example.com/other'']\<rparr>) (Settles 0 (Inl ENOTFOUND))) =
     Some (JsonError 500 ''Failed to scrape webpage'' (Some WebsiteNotFound))"
proof -
  let ?p = "examplePlatform []" and ?u = "''https://example.com/page''"
  let ?s = "servedOnce\<lparr>waiting := [''https://example.com/other'']\<rparr>"
  have k: "map fst (scrapedResults servedOnce) = [?u]" by code_simp
  then obtain r where r: "scrapedResults servedOnce = [(?u, r)]"
    by (cases "scrapedResults servedOnce") auto
  have h: "?u \<noteq> []" "parseURL ?p ?u \<noteq> None" by code_simp+
  have g: "mapGet (scrapedResults servedOnce) ?u = Some r" by (simp add: r mapGet_def)
  from cache_written_only_by_settled_scrape[of ?p servedOnce, THEN conjunct2, THEN conjunct2, THEN conjunct2, THEN conjunct2,
          THEN conjunct1, rule_format, OF h g]
  have hit: "serve ?p servedOnce (PostScrape (Some ?u)) = (servedOnce, Some (Json 200 r))" .
  have n: "0 < length (waiting ?s)" by simp
  have f: "scrapeSettled ?p (waiting ?s ! 0) (Inl ENOTFOUND) = Inl WebsiteNotFound"
    by (simp add: scrapeSettled_def rethrow_def)
  from cache_written_only_by_settled_scrape[of ?p ?s, THEN conjunct2, THEN conjunct2, THEN conjunct1, rule_format, OF n f]
  have "scrapedResults (fst (serve ?p ?s (Settles 0 (Inl ENOTFOUND)))) = scrapedResults ?s"
    and "snd (serve ?p ?s (Settles 0 (Inl ENOTFOUND))) =
           Some (JsonError 500 ''Failed to scrape webpage'' (Some WebsiteNotFound))"
    by simp_all
  with r hit show ?thesis by simp
qed

text \<open>
  The claim as stated fails when two requests for one URL overlap: the handler awaits the
  scrape between \<open>scrapedResults.has(url)\<close> and \<open>scrapedResults.set(url, ...)\<close>, so
  both requests miss the cache and both scrape, and the record the first one stored
  (titled \<open>Hello World\<close>) is replaced by the record of the second (titled
  \<open>HomeMenu\<close>).
\<close>

theorem overlapping_requests_overwrite_entry:
  "waiting (run (examplePlatform []) idleServer
      [PostScrape (Some ''https://example.com/page''), PostScrape (Some ''https://example.com/page'')]) =
     [''https://example.com/page'', ''https://example.com/page''] \<and>
   map (map_prod id title) (scrapedResults (run (examplePlatform []) idleServer
      [PostScrape (Some ''https://example.com/page''), PostScrape (Some ''https://example.com/page''),
       Settles 0 (Inr helloResponse)])) =
     [(''https://example.com/page'', ''Hello World'')] \<and>
   map (map_prod id title) (scrapedResults (run (examplePlatform []) idleServer
      [PostScrape (Some ''https://example.com/page''), PostScrape (Some ''https://example.com/page''),
       Settles 0 (Inr helloResponse), Settles 0 (Inr twoTitlesResponse)])) =
     [(''https://example.com/page'', ''HomeMenu'')]"
  by code_simp

section \<open>Strings and loops\<close>

lemma startsWith_prefix: "startsWith s p \<longleftrightarrow> prefix p s"
  unfolding startsWith_def
  by (metis append_eq_conv_conj prefix_def)

lemma str_includes_sublist: "str_includes s p \<longleftrightarrow> sublist p s"
  by (induction s) (auto simp: startsWith_prefix sublist_Cons_right)

lemma toLowerCase_append: "toLowerCase (a @ b) = toLowerCase a @ toLowerCase b"
  by (simp add: toLowerCase_def)

lemma sublist_toLowerCase:
  "sublist p (toLowerCase s) \<longleftrightarrow> (\<exists>w. sublist w s \<and> toLowerCase w = p)"
  unfolding sublist_def toLowerCase_def
  by (auto simp: map_eq_append_conv append_eq_map_conv) blast+

lemma each_append:
  "each f (xs @ ys) s = (case each f xs s of Inl e \<Rightarrow> Inl e | Inr s' \<Rightarrow> each f ys s')"
  by (induction xs arbitrary: s) (auto split: sum.splits)

lemma foldl_headingStep:
  "foldl headingStep acc xs =
     acc @ filter (\<lambda>h. length (headingText h) > 2)
            (map (\<lambda>e. \<lparr>level = toLowerCase (tagName e), headingText = cleanText (textContent e)\<rparr>) xs)"
  by (induction xs arbitrary: acc) (auto simp: headingStep_def Let_def)

lemma foldl_paragraphStep:
  "foldl paragraphStep acc xs =
     acc @ filter (\<lambda>t. length t > 20 \<and> length t < 500) (map (\<lambda>e. cleanText (textContent e)) xs)"
  by (induction xs arbitrary: acc) (auto simp: paragraphStep_def Let_def)

section \<open>Text cleaning is white-space normalisation\<close>

lemma dropTrailing_Cons:
  "rev (dropWhile isSpace (rev (c # cs))) =
     (if \<forall>x\<in>set cs. isSpace x then (if isSpace c then [] else [c])
      else c # rev (dropWhile isSpace (rev cs)))"
  by (simp add: dropWhile_append)

lemma dropTrailing_Nil_iff:
  "rev (dropWhile isSpace (rev s)) = [] \<longleftrightarrow> (\<forall>x\<in>set s. isSpace x)"
  by (simp add: dropWhile_eq_Nil_conv)

lemma dropTrailing_word:
  assumes "w \<noteq> []" and "\<forall>x\<in>set w. \<not> isSpace x"
  shows "rev (dropWhile isSpace (rev (w @ s))) = w @ rev (dropWhile isSpace (rev s))"
proof -
  have "\<not> isSpace (hd (rev w))" using assms by (simp add: hd_rev)
  then have "dropWhile isSpace (rev w) = rev w"
    using assms(1) by (cases "rev w") auto
  then show ?thesis
    by (auto simp: dropWhile_append dropWhile_eq_Nil_conv)
qed

lemma collapse_nonspace: "\<not> isSpace c \<Longrightarrow> collapse (c # s) = c # collapse s"
  by (cases s) auto

lemma collapse_word: "\<forall>x\<in>set w. \<not> isSpace x \<Longrightarrow> collapse (w @ s) = w @ collapse s"
  by (induction w) (auto simp: collapse_nonspace)

lemma collapse_space: "isSpace c \<Longrightarrow> collapse (c # s) = CHR 0x20 # collapse (dropWhile isSpace s)"
proof (induction s arbitrary: c)
  case Nil
  then show ?case by simp
next
  case (Cons d s)
  then show ?case by (cases "isSpace d") (auto simp: collapse_nonspace)
qed

lemma dropWhile_dropTrailing:
  "dropWhile isSpace (rev (dropWhile isSpace (rev s))) = rev (dropWhile isSpace (rev (dropWhile isSpace s)))"
proof (induction s)
  case Nil
  then show ?case by simp
next
  case (Cons c s)
  show ?case
  proof (cases "isSpace c")
    case True
    then show ?thesis
      using Cons
      by (auto simp: dropTrailing_Cons dropWhile_eq_Nil_conv simp del: rev.simps dest: set_dropWhileD)
  next
    case False
    then show ?thesis
      by (auto simp: dropTrailing_Cons simp del: rev.simps)
  qed
qed

lemma wordsFrom_spaces: "\<forall>x\<in>set s. isSpace x \<Longrightarrow> wordsFrom [] s = []"
  by (induction s) auto

lemma wordsFrom_nonempty: "cur \<noteq> [] \<or> (\<exists>x\<in>set s. \<not> isSpace x) \<Longrightarrow> wordsFrom cur s \<noteq> []"
  by (induction s arbitrary: cur) auto

lemma wordsFrom_no_empty_word: "[] \<notin> set (wordsFrom cur s)"
  by (induction s arbitrary: cur) auto

lemma joinWords_Cons: "ws \<noteq> [] \<Longrightarrow> joinWords (w # ws) = w @ CHR 0x20 # joinWords ws"
  by (cases ws) auto

lemma collapse_words:
  "\<forall>x\<in>set cur. \<not> isSpace x \<Longrightarrow>
   (cur \<noteq> [] \<longrightarrow> collapse (rev (dropWhile isSpace (rev (cur @ s)))) = joinWords (wordsFrom cur s)) \<and>
   collapse (rev (dropWhile isSpace (rev (dropWhile isSpace s)))) = joinWords (wordsFrom [] s)"
proof (induction s arbitrary: cur)
  case Nil
  then show ?case
    using dropTrailing_word[of cur "[]"] collapse_word[of cur "[]"] by auto
next
  case (Cons c cs)
  have ih2: "collapse (rev (dropWhile isSpace (rev (dropWhile isSpace cs)))) = joinWords (wordsFrom [] cs)"
    using Cons.IH[of "[]"] by simp
  show ?case
  proof (cases "isSpace c")
    case True
    have p2: "collapse (rev (dropWhile isSpace (rev (dropWhile isSpace (c # cs))))) = joinWords (wordsFrom [] (c # cs))"
      using True ih2 by simp
    have p1: "collapse (rev (dropWhile isSpace (rev (cur @ c # cs)))) = joinWords (wordsFrom cur (c # cs))"
      if ne: "cur \<noteq> []"
    proof (cases "\<forall>x\<in>set cs. isSpace x")
      case all: True
      have "rev (dropWhile isSpace (rev (c # cs))) = []"
        using all True dropTrailing_Cons[of c cs] by simp
      then have "rev (dropWhile isSpace (rev (cur @ c # cs))) = cur"
        using dropTrailing_word[OF ne Cons.prems, of "c # cs"] by simp
      moreover have "collapse cur = cur" using collapse_word[OF Cons.prems, of "[]"] by simp
      ultimately show ?thesis using True ne all by (simp add: wordsFrom_spaces)
    next
      case some: False
      have "rev (dropWhile isSpace (rev (c # cs))) = c # rev (dropWhile isSpace (rev cs))"
        using some dropTrailing_Cons[of c cs] by simp
      then have "rev (dropWhile isSpace (rev (cur @ c # cs))) = cur @ c # rev (dropWhile isSpace (rev cs))"
        using dropTrailing_word[OF ne Cons.prems, of "c # cs"] by simp
      then have "collapse (rev (dropWhile isSpace (rev (cur @ c # cs)))) =
                 cur @ CHR 0x20 # joinWords (wordsFrom [] cs)"
        using collapse_word[OF Cons.prems] collapse_space[OF True] dropWhile_dropTrailing[of cs] ih2
        by simp
      moreover have "wordsFrom [] cs \<noteq> []" using some wordsFrom_nonempty[of "[]" cs] by auto
      ultimately show ?thesis using True ne by (simp add: joinWords_Cons)
    qed
    from p1 p2 show ?thesis by blast
  next
    case False
    have c1: "\<forall>x\<in>set (cur @ [c]). \<not> isSpace x" using False Cons.prems by simp
    have "collapse (rev (dropWhile isSpace (rev ((cur @ [c]) @ cs)))) = joinWords (wordsFrom (cur @ [c]) cs)"
      using Cons.IH[OF c1] by simp
    then have p1: "collapse (rev (dropWhile isSpace (rev (cur @ c # cs)))) = joinWords (wordsFrom cur (c # cs))"
      using False by simp
    have c2: "\<forall>x\<in>set [c]. \<not> isSpace x" using False by simp
    have "collapse (rev (dropWhile isSpace (rev ([c] @ cs)))) = joinWords (wordsFrom [c] cs)"
      using Cons.IH[OF c2] by simp
    then have p2: "collapse (rev (dropWhile isSpace (rev (dropWhile isSpace (c # cs))))) = joinWords (wordsFrom [] (c # cs))"
      using False by simp
    from p1 p2 show ?thesis by blast
  qed
qed

lemma cleanText_normalizeSpace: "cleanText s = normalizeSpace s"
  using collapse_words[of "[]" s]
  by (cases s) (simp_all add: cleanText_def trim_def normalizeSpace_def)

lemma cleanText_empty_iff: "cleanText s = [] \<longleftrightarrow> (\<forall>x\<in>set s. isSpace x)"
proof
  assume "cleanText s = []"
  then have "wordsFrom [] s = []"
    unfolding cleanText_normalizeSpace normalizeSpace_def
    using wordsFrom_no_empty_word[of "[]" s]
    by (cases "wordsFrom [] s" rule: joinWords.cases) auto
  then show "\<forall>x\<in>set s. isSpace x"
    using wordsFrom_nonempty[of "[]" s] by blast
next
  assume "\<forall>x\<in>set s. isSpace x"
  then show "cleanText s = []"
    by (simp add: cleanText_normalizeSpace normalizeSpace_def wordsFrom_spaces)
qed

section \<open>Properties of the extraction\<close>

lemma imgStep_cases:
  assumes "imgStep pf b (acc, seen) x = Inr (acc', seen')"
  shows "(acc' = acc \<and> seen' = seen) \<or>
         (\<exists>i. imgCandidate pf b x = Some i \<and> acc' = acc @ [i] \<and> seen' = insert (src i) seen)"
  using assms
  by (auto simp: imgStep_def imgCandidate_def split: option.splits if_splits resolution.splits)

lemma each_imgStep_subseq:
  "each (imgStep pf b) xs (acc, seen) = Inr (all, seen') \<Longrightarrow>
   \<exists>ys. all = acc @ ys \<and> subseq ys (List.map_filter (imgCandidate pf b) xs)"
proof (induction xs arbitrary: acc seen)
  case Nil
  then show ?case by simp
next
  case (Cons x xs)
  from Cons.prems obtain acc1 seen1 where
    st: "imgStep pf b (acc, seen) x = Inr (acc1, seen1)"
    and rest: "each (imgStep pf b) xs (acc1, seen1) = Inr (all, seen')"
    by (auto split: sum.splits)
  from Cons.IH[OF rest] obtain ys where ys: "all = acc1 @ ys" "subseq ys (List.map_filter (imgCandidate pf b) xs)"
    by blast
  from imgStep_cases[OF st] show ?case
  proof
    assume "acc1 = acc \<and> seen1 = seen"
    with ys show ?thesis
      by (cases "imgCandidate pf b x") (auto simp: List.map_filter_simps)
  next
    assume "\<exists>i. imgCandidate pf b x = Some i \<and> acc1 = acc @ [i] \<and> seen1 = insert (src i) seen"
    with ys show ?thesis
      by (auto simp: List.map_filter_simps)
  qed
qed

lemma linkStep_cases:
  assumes "linkStep pf b (acc, seen) x = Inr (acc', seen')"
  shows "(acc' = acc \<and> seen' = seen) \<or>
         (\<exists>l. linkCandidate pf b x = Some l \<and> acc' = acc @ [l] \<and> seen' = insert (href l) seen)"
  using assms
  by (auto simp: linkStep_def linkCandidate_def Let_def split: option.splits if_splits resolution.splits)

lemma each_linkStep_subseq:
  "each (linkStep pf b) xs (acc, seen) = Inr (all, seen') \<Longrightarrow>
   \<exists>ys. all = acc @ ys \<and> subseq ys (List.map_filter (linkCandidate pf b) xs)"
proof (induction xs arbitrary: acc seen)
  case Nil
  then show ?case by simp
next
  case (Cons x xs)
  from Cons.prems obtain acc1 seen1 where
    st: "linkStep pf b (acc, seen) x = Inr (acc1, seen1)"
    and rest: "each (linkStep pf b) xs (acc1, seen1) = Inr (all, seen')"
    by (auto split: sum.splits)
  from Cons.IH[OF rest] obtain ys where ys: "all = acc1 @ ys" "subseq ys (List.map_filter (linkCandidate pf b) xs)"
    by blast
  from linkStep_cases[OF st] show ?case
  proof
    assume "acc1 = acc \<and> seen1 = seen"
    with ys show ?thesis
      by (cases "linkCandidate pf b x") (auto simp: List.map_filter_simps)
  next
    assume "\<exists>l. linkCandidate pf b x = Some l \<and> acc1 = acc @ [l] \<and> seen1 = insert (href l) seen"
    with ys show ?thesis
      by (auto simp: List.map_filter_simps)
  qed
qed

lemma extractImages_prefix:
  assumes "extractImages pf doc b = Inr imgs"
  shows "length imgs \<le> 10 \<and>
         (\<exists>all seen. each (imgStep pf b) (selectTag ''img'' doc) ([], {}) = Inr (all, seen) \<and>
            imgs = take 10 all \<and>
            subseq all (List.map_filter (imgCandidate pf b) (selectTag ''img'' doc)))"
proof -
  from assms obtain all seen where
    e: "each (imgStep pf b) (selectTag ''img'' doc) ([], {}) = Inr (all, seen)" and i: "imgs = take 10 all"
    by (auto simp: extractImages_def split: sum.splits)
  from each_imgStep_subseq[OF e] have "subseq all (List.map_filter (imgCandidate pf b) (selectTag ''img'' doc))"
    by simp
  with e i show ?thesis by auto
qed

lemma extractLinks_prefix:
  assumes "extractLinks pf doc b = Inr ls"
  shows "length ls \<le> 20 \<and>
         (\<exists>all seen. each (linkStep pf b) (selectHasAttr ''a'' ''href'' doc) ([], {}) = Inr (all, seen) \<and>
            ls = take 20 all \<and>
            subseq all (List.map_filter (linkCandidate pf b) (selectHasAttr ''a'' ''href'' doc)))"
proof -
  from assms obtain all seen where
    e: "each (linkStep pf b) (selectHasAttr ''a'' ''href'' doc) ([], {}) = Inr (all, seen)" and i: "ls = take 20 all"
    by (auto simp: extractLinks_def split: sum.splits)
  from each_linkStep_subseq[OF e] have "subseq all (List.map_filter (linkCandidate pf b) (selectHasAttr ''a'' ''href'' doc))"
    by simp
  with e i show ?thesis by auto
qed

lemma scrape_fields:
  assumes "scrapeWebpage pf u = Inr r"
  shows "\<exists>resp urlObj imgs ls. httpGet pf u = Inr resp \<and> parseURL pf u = Some urlObj \<and>
           extractImages pf (data resp) (origin urlObj) = Inr imgs \<and>
           extractLinks pf (data resp) (origin urlObj) = Inr ls \<and>
           images r = imgs \<and> links r = ls \<and>
           title r = pageTitle (data resp) \<and>
           description r = cleanText (rawDescription (data resp)) \<and>
           headings r = extractHeadings (data resp) \<and>
           paragraphs r = extractParagraphs (data resp) \<and>
           bodyText r = take 1000 (cleanText (selText (selectTag ''body'' (data resp))))"
  using assms
  by (auto simp: scrapeWebpage_def scrapeSettled_def Let_def split: sum.splits option.splits)

text \<open>
  C8. The extracted sequences never exceed their caps: at most 10 images, 20 links,
  15 headings and 10 paragraphs, and at most 1000 characters of body text. Each sequence is
  the first entries of the filtered results, in document order: headings and paragraphs are
  a prefix of the filtered list of their elements; images and links are a prefix of what
  the loop collected, which is a subsequence of the candidates in document order.
\<close>

theorem extraction_caps:
  "length (extractHeadings doc) \<le> 15 \<and>
   extractHeadings doc =
     take 15 (filter (\<lambda>h. length (headingText h) > 2)
       (map (\<lambda>e. \<lparr>level = toLowerCase (tagName e), headingText = cleanText (textContent e)\<rparr>)
            (selectHeadings doc))) \<and>
   length (extractParagraphs doc) \<le> 10 \<and>
   extractParagraphs doc =
     take 10 (filter (\<lambda>t. length t > 20 \<and> length t < 500)
       (map (\<lambda>e. cleanText (textContent e)) (selectTag ''p'' doc))) \<and>
   (\<forall>imgs. extractImages pf doc b = Inr imgs \<longrightarrow>
      length imgs \<le> 10 \<and>
      (\<exists>all seen. each (imgStep pf b) (selectTag ''img'' doc) ([], {}) = Inr (all, seen) \<and>
         imgs = take 10 all \<and>
         subseq all (List.map_filter (imgCandidate pf b) (selectTag ''img'' doc)))) \<and>
   (\<forall>ls. extractLinks pf doc b = Inr ls \<longrightarrow>
      length ls \<le> 20 \<and>
      (\<exists>all seen. each (linkStep pf b) (selectHasAttr ''a'' ''href'' doc) ([], {}) = Inr (all, seen) \<and>
         ls = take 20 all \<and>
         subseq all (List.map_filter (linkCandidate pf b) (selectHasAttr ''a'' ''href'' doc)))) \<and>
   (\<forall>r. scrapeWebpage pf u = Inr r \<longrightarrow>
      length (images r) \<le> 10 \<and> length (links r) \<le> 20 \<and> length (headings r) \<le> 15 \<and>
      length (paragraphs r) \<le> 10 \<and> length (bodyText r) \<le> 1000)"
proof -
  have h: "extractHeadings doc =
     take 15 (filter (\<lambda>h. length (headingText h) > 2)
       (map (\<lambda>e. \<lparr>level = toLowerCase (tagName e), headingText = cleanText (textContent e)\<rparr>)
            (selectHeadings doc)))"
    by (simp add: extractHeadings_def foldl_headingStep)
  have p: "extractParagraphs doc =
     take 10 (filter (\<lambda>t. length t > 20 \<and> length t < 500)
       (map (\<lambda>e. cleanText (textContent e)) (selectTag ''p'' doc)))"
    by (simp add: extractParagraphs_def foldl_paragraphStep)
  have hl: "\<And>d. length (extractHeadings d) \<le> 15" by (simp add: extractHeadings_def)
  have pl: "\<And>d. length (extractParagraphs d) \<le> 10" by (simp add: extractParagraphs_def)
  have r: "\<forall>r. scrapeWebpage pf u = Inr r \<longrightarrow>
      length (images r) \<le> 10 \<and> length (links r) \<le> 20 \<and> length (headings r) \<le> 15 \<and>
      length (paragraphs r) \<le> 10 \<and> length (bodyText r) \<le> 1000"
  proof (intro allI impI)
    fix r assume "scrapeWebpage pf u = Inr r"
    from scrape_fields[OF this] obtain resp :: response and urlObj :: URL where
      f: "extractImages pf (data resp) (origin urlObj) = Inr (images r)"
         "extractLinks pf (data resp) (origin urlObj) = Inr (links r)"
         "headings r = extractHeadings (data resp)"
         "paragraphs r = extractParagraphs (data resp)"
         "bodyText r = take 1000 (cleanText (selText (selectTag ''body'' (data resp))))"
      by auto
    show "length (images r) \<le> 10 \<and> length (links r) \<le> 20 \<and> length (headings r) \<le> 15 \<and>
      length (paragraphs r) \<le> 10 \<and> length (bodyText r) \<le> 1000"
      using extractImages_prefix[OF f(1)] extractLinks_prefix[OF f(2)] hl pl f(3,4,5)
      by simp
  qed
  show ?thesis
    using h p hl[of doc] pl[of doc] r extractImages_prefix[of pf doc b] extractLinks_prefix[of pf doc b]
    by blast
qed

theorem extraction_caps_witness:
  "\<exists>r. scrapeWebpage (examplePlatform capsDoc) ''https://example.com/page'' = Inr r \<and>
       length (images r) \<le> 10 \<and> length (links r) \<le> 20 \<and> length (headings r) \<le> 15 \<and>
       length (paragraphs r) \<le> 10 \<and> length (bodyText r) \<le> 1000 \<and>
       length (paragraphs r) = 10"
proof -
  have "\<not> isl (scrapeWebpage (examplePlatform capsDoc) ''https://example.com/page'')"
    by code_simp
  then obtain r where r: "scrapeWebpage (examplePlatform capsDoc) ''https://example.com/page'' = Inr r"
    by (cases "scrapeWebpage (examplePlatform capsDoc) ''https://example.com/page''") auto
  have "map_sum id (\<lambda>r. length (paragraphs r))
          (scrapeWebpage (examplePlatform capsDoc) ''https://example.com/page'') = Inr 10"
    by code_simp
  with r have p: "length (paragraphs r) = 10" by simp
  from extraction_caps[of capsDoc "examplePlatform capsDoc" "''https://example.com''" "''https://example.com/page''"] r
  have "length (images r) \<le> 10 \<and> length (links r) \<le> 20 \<and> length (headings r) \<le> 15 \<and>
      length (paragraphs r) \<le> 10 \<and> length (bodyText r) \<le> 1000"
    by blast
  with r p show ?thesis by blast
qed

text \<open>
  C10. The image filter reads the resolved source as it is written and the alt text in
  lower case: an image is kept exactly when its source contains none of \<open>icon\<close>,
  \<open>logo\<close>, \<open>favicon\<close>, \<open>pixel\<close> and its alt text contains neither \<open>icon\<close> nor
  \<open>logo\<close> in any letter case. So a source with \<open>Logo\<close> or \<open>ICON\<close> and none of the
  lower-case words is kept (when the alt text allows it).
\<close>

theorem image_filter_case_rule:
  "(keepImage s a \<longleftrightarrow>
      \<not> (\<exists>w \<in> {''icon'', ''logo'', ''favicon'', ''pixel''}. sublist w s) \<and>
      \<not> (\<exists>w. sublist w a \<and> toLowerCase w \<in> {''icon'', ''logo''})) \<and>
   ((sublist ''Logo'' s \<or> sublist ''ICON'' s) \<longrightarrow>
      \<not> (\<exists>w \<in> {''icon'', ''logo'', ''favicon'', ''pixel''}. sublist w s) \<longrightarrow>
      \<not> (\<exists>w. sublist w a \<and> toLowerCase w \<in> {''icon'', ''logo''}) \<longrightarrow> keepImage s a) \<and>
   (\<forall>img s0. imgSrcAttr img = Some s0 \<longrightarrow> s0 \<noteq> [] \<longrightarrow> s0 \<notin> seen \<longrightarrow> resolveSrc pf b s0 = Resolved s \<longrightarrow>
      imgStep pf b (imgs, seen) img =
        (if keepImage s (imgAltAttr img)
         then Inr (imgs @ [\<lparr>src = s, alt = cleanText (imgAltAttr img)\<rparr>], insert s seen)
         else Inr (imgs, seen)))"
proof -
  have k: "keepImage s a \<longleftrightarrow>
      \<not> (\<exists>w \<in> {''icon'', ''logo'', ''favicon'', ''pixel''}. sublist w s) \<and>
      \<not> (\<exists>w. sublist w a \<and> toLowerCase w \<in> {''icon'', ''logo''})"
    unfolding keepImage_def str_includes_sublist sublist_toLowerCase by blast
  have st: "\<forall>img s0. imgSrcAttr img = Some s0 \<longrightarrow> s0 \<noteq> [] \<longrightarrow> s0 \<notin> seen \<longrightarrow> resolveSrc pf b s0 = Resolved s \<longrightarrow>
      imgStep pf b (imgs, seen) img =
        (if keepImage s (imgAltAttr img)
         then Inr (imgs @ [\<lparr>src = s, alt = cleanText (imgAltAttr img)\<rparr>], insert s seen)
         else Inr (imgs, seen))"
    by (simp add: imgStep_def)
  from k st show ?thesis by blast
qed

theorem image_filter_case_rule_witness:
  "keepImage ''https://example.com/Logo.png'' ''Team photo'' \<and>
   \<not> keepImage ''https://example.com/a.png'' ''Company LOGO'' \<and>
   \<not> sublist ''logo'' ''https://example.com/Logo.png'' \<and>
   imgStep (examplePlatform []) ''https://example.com'' ([], {})
     (node ''img'' [(''src'', ''https://example.com/Logo.png''), (''alt'', ''Team photo'')] []) =
     Inr ([\<lparr>src = ''https://example.com/Logo.png'', alt = ''Team photo''\<rparr>],
          {''https://example.com/Logo.png''})"
proof -
  let ?s = "''https://example.com/Logo.png''" and ?a = "''Team photo''"
  let ?img = "node ''img'' [(''src'', ?s), (''alt'', ?a)] []"
  note c = image_filter_case_rule[of ?s ?a "{}" "examplePlatform []" "''https://example.com''" "[]"]
  have k: "keepImage ?s ?a" by code_simp
  have k2: "\<not> keepImage ''https://example.com/a.png'' ''Company LOGO''" by code_simp
  have h: "imgSrcAttr ?img = Some ?s" "resolveSrc (examplePlatform []) ''https://example.com'' ?s = Resolved ?s"
    "imgAltAttr ?img = ?a" "cleanText ?a = ?a"
    by code_simp+
  from c k have "\<not> sublist ''logo'' ?s" by blast
  moreover from c[THEN conjunct2, THEN conjunct2] h k
  have "imgStep (examplePlatform []) ''https://example.com'' ([], {}) ?img =
     Inr ([\<lparr>src = ?s, alt = ?a\<rparr>], {?s})"
    by simp
  ultimately show ?thesis using k k2 by blast
qed

lemma each_linkStep_bounds:
  "each (linkStep pf b) xs (acc, seen) = Inr (all, seen') \<Longrightarrow>
   \<forall>l \<in> set acc. 3 < length (linkText l) \<and> length (linkText l) < 100 \<Longrightarrow>
   \<forall>l \<in> set all. 3 < length (linkText l) \<and> length (linkText l) < 100"
proof (induction xs arbitrary: acc seen)
  case Nil
  then show ?case by simp
next
  case (Cons x xs)
  from Cons.prems(1) obtain acc1 seen1 where
    st: "linkStep pf b (acc, seen) x = Inr (acc1, seen1)"
    and rest: "each (linkStep pf b) xs (acc1, seen1) = Inr (all, seen')"
    by (auto split: sum.splits)
  have "\<forall>l \<in> set acc1. 3 < length (linkText l) \<and> length (linkText l) < 100"
    using st Cons.prems(2)
    by (auto simp: linkStep_def Let_def split: option.splits if_splits resolution.splits)
  from Cons.IH[OF rest this] show ?case .
qed

text \<open>
  C7. A link is kept only if its cleaned text is longer than 3 and shorter than 100
  characters: every extracted link has such a text, an anchor that passes the other checks
  is pushed exactly when its text does, and of a document with one anchor the link is
  dropped at length 3 and kept at length 4.
\<close>

theorem link_text_length_window:
  "(\<forall>ls. extractLinks pf doc b = Inr ls \<longrightarrow>
      (\<forall>l \<in> set ls. 3 < length (linkText l) \<and> length (linkText l) < 100)) \<and>
   (\<forall>a h0 h. attr a ''href'' = Some h0 \<longrightarrow> h0 \<noteq> [] \<longrightarrow> cleanText (textContent a) \<noteq> [] \<longrightarrow>
      h0 \<notin> seen \<longrightarrow> resolveHref pf b h0 = Resolved h \<longrightarrow>
      linkStep pf b (acc, seen) a =
        (if 3 < length (cleanText (textContent a)) \<and> length (cleanText (textContent a)) < 100
         then Inr (acc @ [\<lparr>href = h, linkText = cleanText (textContent a)\<rparr>], insert h seen)
         else Inr (acc, seen))) \<and>
   (\<forall>a h0 h. tagName a = ''a'' \<longrightarrow> attr a ''href'' = Some h0 \<longrightarrow> h0 \<noteq> [] \<longrightarrow>
      resolveHref pf b h0 = Resolved h \<longrightarrow>
      (length (cleanText (textContent a)) = 3 \<longrightarrow> extractLinks pf [a] b = Inr []) \<and>
      (length (cleanText (textContent a)) = 4 \<longrightarrow>
         extractLinks pf [a] b = Inr [\<lparr>href = h, linkText = cleanText (textContent a)\<rparr>]))"
proof (intro conjI allI impI)
  fix ls assume "extractLinks pf doc b = Inr ls"
  then obtain all seen' where
    e: "each (linkStep pf b) (selectHasAttr ''a'' ''href'' doc) ([], {}) = Inr (all, seen')" and i: "ls = take 20 all"
    by (auto simp: extractLinks_def split: sum.splits)
  from each_linkStep_bounds[OF e] have "\<forall>l \<in> set all. 3 < length (linkText l) \<and> length (linkText l) < 100"
    by simp
  then show "\<forall>l \<in> set ls. 3 < length (linkText l) \<and> length (linkText l) < 100"
    unfolding i by (meson in_set_takeD)
next
  fix a h0 h
  assume "attr a ''href'' = Some h0" "h0 \<noteq> []" "cleanText (textContent a) \<noteq> []" "h0 \<notin> seen"
    "resolveHref pf b h0 = Resolved h"
  then show "linkStep pf b (acc, seen) a =
        (if 3 < length (cleanText (textContent a)) \<and> length (cleanText (textContent a)) < 100
         then Inr (acc @ [\<lparr>href = h, linkText = cleanText (textContent a)\<rparr>], insert h seen)
         else Inr (acc, seen))"
    by (simp add: linkStep_def Let_def)
next
  fix a h0 h
  assume "tagName a = ''a''" "attr a ''href'' = Some h0" "h0 \<noteq> []" "resolveHref pf b h0 = Resolved h"
    "length (cleanText (textContent a)) = 3"
  then show "extractLinks pf [a] b = Inr []"
    by (simp add: extractLinks_def selectHasAttr_def linkStep_def Let_def)
next
  fix a h0 h
  assume "tagName a = ''a''" "attr a ''href'' = Some h0" "h0 \<noteq> []" "resolveHref pf b h0 = Resolved h"
    "length (cleanText (textContent a)) = 4"
  then show "extractLinks pf [a] b = Inr [\<lparr>href = h, linkText = cleanText (textContent a)\<rparr>]"
    by (auto simp: extractLinks_def selectHasAttr_def linkStep_def Let_def)
qed

theorem link_text_length_window_witness:
  "extractLinks (examplePlatform []) [node ''a'' [(''href'', ''/docs'')] '' Docs ''] ''https://example.com'' =
     Inr [\<lparr>href = ''https://example.com/docs'', linkText = ''Docs''\<rparr>] \<and>
   extractLinks (examplePlatform []) [node ''a'' [(''href'', ''/faq'')] ''FAQ''] ''https://example.com'' = Inr []"
proof -
  let ?p = "examplePlatform []" and ?b = "''https://example.com''"
  let ?a4 = "node ''a'' [(''href'', ''/docs'')] '' Docs ''" and ?a3 = "node ''a'' [(''href'', ''/faq'')] ''FAQ''"
  note c = link_text_length_window[of ?p "[]" ?b "{}" "[]", THEN conjunct2, THEN conjunct2, rule_format]
  have h4: "tagName ?a4 = ''a''" "attr ?a4 ''href'' = Some ''/docs''" "''/docs'' \<noteq> []"
    "resolveHref ?p ?b ''/docs'' = Resolved ''https://example.com/docs''"
    by code_simp+
  have t4: "cleanText (textContent ?a4) = ''Docs''" by code_simp
  have l4: "length (cleanText (textContent ?a4)) = 4" unfolding t4 by simp
  have h3: "tagName ?a3 = ''a''" "attr ?a3 ''href'' = Some ''/faq''" "''/faq'' \<noteq> []"
    "resolveHref ?p ?b ''/faq'' = Resolved ''https://example.com/faq''"
    by code_simp+
  have t3: "cleanText (textContent ?a3) = ''FAQ''" by code_simp
  have l3: "length (cleanText (textContent ?a3)) = 3" unfolding t3 by simp
  have r4: "extractLinks ?p [?a4] ?b = Inr [\<lparr>href = ''https://example.com/docs'', linkText = cleanText (textContent ?a4)\<rparr>]"
    by (rule c[OF h4, THEN conjunct2, THEN mp, OF l4])
  have r3: "extractLinks ?p [?a3] ?b = Inr []"
    by (rule c[OF h3, THEN conjunct1, THEN mp, OF l3])
  from r4 r3 show ?thesis unfolding t4 by (rule conjI)
qed

text \<open>
  C1. Two image elements with the same relative source: the seen set is asked for the
  source as written and holds sources as resolved, so both entries are kept.
\<close>

theorem duplicate_relative_images_both_kept:
  "extractImages (examplePlatform sameImageTwiceDoc) sameImageTwiceDoc ''https://example.com'' =
   Inr [\<lparr>src = ''https://example.com/a.png'', alt = ''first''\<rparr>,
        \<lparr>src = ''https://example.com/a.png'', alt = ''second''\<rparr>]"
  by code_simp

text \<open>
  C2. A description whose content is white space only: the fallback chain takes it as
  present and the cleaning empties it afterwards, so the record's description is empty.
\<close>

theorem blank_description_stays_empty:
  "map_sum id description
     (scrapeWebpage (examplePlatform blankDescriptionDoc) ''https://example.com/page'') = Inr []"
  by code_simp

section \<open>Relative references\<close>

lemma each_skip:
  assumes "\<And>st. f st x = Inr st"
  shows "each f (xs @ x # ys) s = each f (xs @ ys) s"
  by (simp add: each_append assms split: sum.splits)

lemma each_total:
  assumes "\<And>st x. \<exists>st'. f st x = Inr st'"
  shows "\<exists>st'. each f xs st = Inr st'"
proof (induction xs arbitrary: st)
  case Nil
  then show ?case by simp
next
  case (Cons x xs)
  from assms[of st x] obtain st1 where "f st x = Inr st1" by blast
  with Cons[of st1] show ?case by simp
qed

lemma imgStep_total:
  assumes "parseURL pf b = Some uo"
  shows "\<exists>st'. imgStep pf b st x = Inr st'"
  using assms
  by (cases st) (auto simp: imgStep_def resolveSrc_def split: option.splits resolution.splits)

lemma linkStep_total:
  assumes "parseURL pf b = Some uo"
  shows "\<exists>st'. linkStep pf b st x = Inr st'"
  using assms
  by (cases st) (auto simp: linkStep_def resolveHref_def Let_def split: option.splits resolution.splits)

lemma extractImages_total:
  assumes "parseURL pf b = Some uo"
  shows "\<exists>imgs. extractImages pf doc b = Inr imgs"
proof -
  from each_total[of "imgStep pf b" "selectTag ''img'' doc" "([], {})"] imgStep_total[OF assms]
  obtain st' where "each (imgStep pf b) (selectTag ''img'' doc) ([], {}) = Inr st'" by blast
  then show ?thesis by (cases st') (simp add: extractImages_def)
qed

lemma extractLinks_total:
  assumes "parseURL pf b = Some uo"
  shows "\<exists>ls. extractLinks pf doc b = Inr ls"
proof -
  from each_total[of "linkStep pf b" "selectHasAttr ''a'' ''href'' doc" "([], {})"] linkStep_total[OF assms]
  obtain st' where "each (linkStep pf b) (selectHasAttr ''a'' ''href'' doc) ([], {}) = Inr st'" by blast
  then show ?thesis by (cases st') (simp add: extractLinks_def)
qed

lemma imgStep_unresolved:
  assumes "imgSrcAttr e = Some s0" "\<not> startsWith s0 ''/''" "\<not> startsWith s0 ''http''"
    "resolveURL pf s0 b = None"
  shows "imgStep pf b st e = Inr st"
  using assms by (cases st) (simp add: imgStep_def resolveSrc_def)

lemma linkStep_unresolved:
  assumes "attr e ''href'' = Some h0" "\<not> startsWith h0 ''/''" "\<not> startsWith h0 ''http''"
    "\<not> startsWith h0 ''mailto''" "\<not> startsWith h0 ''tel''" "resolveURL pf h0 b = None"
  shows "linkStep pf b st e = Inr st"
  using assms by (cases st) (simp add: linkStep_def resolveHref_def Let_def)

lemma extractImages_drop:
  assumes "imgSrcAttr e = Some s0" "\<not> startsWith s0 ''/''" "\<not> startsWith s0 ''http''"
    "resolveURL pf s0 b = None"
  shows "extractImages pf (pre @ e # post) b = extractImages pf (pre @ post) b"
proof (cases "tagName e = ''img''")
  case True
  then show ?thesis
    using each_skip[of "imgStep pf b" e, OF imgStep_unresolved[OF assms]]
    by (simp add: extractImages_def selectTag_def)
next
  case False
  then show ?thesis by (simp add: extractImages_def selectTag_def)
qed

lemma extractLinks_drop:
  assumes "attr e ''href'' = Some h0" "\<not> startsWith h0 ''/''" "\<not> startsWith h0 ''http''"
    "\<not> startsWith h0 ''mailto''" "\<not> startsWith h0 ''tel''" "resolveURL pf h0 b = None"
  shows "extractLinks pf (pre @ e # post) b = extractLinks pf (pre @ post) b"
proof (cases "tagName e = ''a''")
  case True
  then show ?thesis
    using each_skip[of "linkStep pf b" e, OF linkStep_unresolved[OF assms]] assms(1)
    by (simp add: extractLinks_def selectHasAttr_def)
next
  case False
  then show ?thesis by (simp add: extractLinks_def selectHasAttr_def)
qed

lemma subseq_map_filter_mem:
  assumes "subseq ys (List.map_filter f xs)" "y \<in> set ys"
  shows "\<exists>x\<in>set xs. f x = Some y"
proof -
  from assms have "y \<in> set (List.map_filter f xs)"
    using list_emb_set[OF assms] by auto
  then show ?thesis by (auto simp: List.map_filter_def)
qed

lemma extractImages_origin:
  assumes "extractImages pf doc b = Inr imgs" "i \<in> set imgs"
  shows "\<exists>e\<in>set doc. \<exists>s0. tagName e = ''img'' \<and> imgSrcAttr e = Some s0 \<and>
           resolveSrc pf b s0 = Resolved (src i)"
proof -
  from extractImages_prefix[OF assms(1)] obtain all where
    a: "imgs = take 10 all" "subseq all (List.map_filter (imgCandidate pf b) (selectTag ''img'' doc))"
    by blast
  from a(1) assms(2) have "i \<in> set all" by (meson in_set_takeD)
  from subseq_map_filter_mem[OF a(2) this] obtain e where
    e: "e \<in> set (selectTag ''img'' doc)" "imgCandidate pf b e = Some i" by blast
  from e(2) obtain s0 where "imgSrcAttr e = Some s0" "resolveSrc pf b s0 = Resolved (src i)"
    by (auto simp: imgCandidate_def split: option.splits if_splits resolution.splits)
  with e(1) show ?thesis by (auto simp: selectTag_def)
qed

lemma extractLinks_origin:
  assumes "extractLinks pf doc b = Inr ls" "l \<in> set ls"
  shows "\<exists>e\<in>set doc. \<exists>h0. tagName e = ''a'' \<and> attr e ''href'' = Some h0 \<and>
           resolveHref pf b h0 = Resolved (href l)"
proof -
  from extractLinks_prefix[OF assms(1)] obtain all where
    a: "ls = take 20 all" "subseq all (List.map_filter (linkCandidate pf b) (selectHasAttr ''a'' ''href'' doc))"
    by blast
  from a(1) assms(2) have "l \<in> set all" by (meson in_set_takeD)
  from subseq_map_filter_mem[OF a(2) this] obtain e where
    e: "e \<in> set (selectHasAttr ''a'' ''href'' doc)" "linkCandidate pf b e = Some l" by blast
  from e(2) obtain h0 where "attr e ''href'' = Some h0" "resolveHref pf b h0 = Resolved (href l)"
    by (auto simp: linkCandidate_def split: option.splits if_splits resolution.splits)
  with e(1) show ?thesis by (auto simp: selectHasAttr_def)
qed

lemma resolve_rooted:
  assumes "startsWith r ''/''" "parseURL pf b = Some uo"
  shows "resolveSrc pf b r = Resolved (protocol uo @ ''//'' @ host uo @ r)"
    and "resolveHref pf b r = Resolved (protocol uo @ ''//'' @ host uo @ r)"
  using assms by (simp_all add: resolveSrc_def resolveHref_def)

text \<open>
  C4, as the code has it. When the URL constructor parses the base URL, extraction of
  images and of links never fails. Every extracted source and href is what the
  \<open>Handle relative URLs\<close> block makes of the attribute of an element of the document:
  a reference that begins with \<open>http\<close> is kept as written, absolute or not; a reference
  that begins with \<open>/\<close> gets its standard resolution against the origin whenever that
  is the origin followed by the reference as written; any other reference (for an anchor:
  one that begins with neither \<open>mailto\<close> nor \<open>tel\<close>) is what the URL constructor
  resolves it to against the base. A reference of the last kind that the constructor
  rejects drops its own element only: extraction yields what it yields for the document
  without that element.
\<close>

theorem relative_references_resolved:
  "(\<forall>uo. parseURL pf b = Some uo \<longrightarrow>
      (\<exists>imgs. extractImages pf doc b = Inr imgs) \<and> (\<exists>ls. extractLinks pf doc b = Inr ls)) \<and>
   (\<forall>imgs. extractImages pf doc b = Inr imgs \<longrightarrow>
      (\<forall>i\<in>set imgs. \<exists>e\<in>set doc. \<exists>s0. tagName e = ''img'' \<and> imgSrcAttr e = Some s0 \<and>
         resolveSrc pf b s0 = Resolved (src i))) \<and>
   (\<forall>ls. extractLinks pf doc b = Inr ls \<longrightarrow>
      (\<forall>l\<in>set ls. \<exists>e\<in>set doc. \<exists>h0. tagName e = ''a'' \<and> attr e ''href'' = Some h0 \<and>
         resolveHref pf b h0 = Resolved (href l))) \<and>
   (\<forall>r uo h. startsWith r ''/'' \<longrightarrow> parseURL pf b = Some uo \<longrightarrow> resolveURL pf r b = Some h \<longrightarrow>
      h = protocol uo @ ''//'' @ host uo @ r \<longrightarrow>
      resolveSrc pf b r = Resolved h \<and> resolveHref pf b r = Resolved h) \<and>
   (\<forall>r. \<not> startsWith r ''/'' \<longrightarrow> startsWith r ''http'' \<longrightarrow>
      resolveSrc pf b r = Resolved r \<and> resolveHref pf b r = Resolved r) \<and>
   (\<forall>r h. \<not> startsWith r ''/'' \<longrightarrow> \<not> startsWith r ''http'' \<longrightarrow> resolveURL pf r b = Some h \<longrightarrow>
      resolveSrc pf b r = Resolved h \<and>
      (\<not> startsWith r ''mailto'' \<longrightarrow> \<not> startsWith r ''tel'' \<longrightarrow> resolveHref pf b r = Resolved h)) \<and>
   (\<forall>e s0 pre post. doc = pre @ e # post \<longrightarrow> imgSrcAttr e = Some s0 \<longrightarrow>
      \<not> startsWith s0 ''/'' \<longrightarrow> \<not> startsWith s0 ''http'' \<longrightarrow> resolveURL pf s0 b = None \<longrightarrow>
      extractImages pf doc b = extractImages pf (pre @ post) b) \<and>
   (\<forall>e h0 pre post. doc = pre @ e # post \<longrightarrow> attr e ''href'' = Some h0 \<longrightarrow>
      \<not> startsWith h0 ''/'' \<longrightarrow> \<not> startsWith h0 ''http'' \<longrightarrow> \<not> startsWith h0 ''mailto'' \<longrightarrow>
      \<not> startsWith h0 ''tel'' \<longrightarrow> resolveURL pf h0 b = None \<longrightarrow>
      extractLinks pf doc b = extractLinks pf (pre @ post) b)"
proof (intro conjI allI impI ballI)
  fix uo assume p: "parseURL pf b = Some uo"
  show "\<exists>imgs. extractImages pf doc b = Inr imgs" by (rule extractImages_total[OF p])
  show "\<exists>ls. extractLinks pf doc b = Inr ls" by (rule extractLinks_total[OF p])
next
  fix imgs i assume "extractImages pf doc b = Inr imgs" "i \<in> set imgs"
  then show "\<exists>e\<in>set doc. \<exists>s0. tagName e = ''img'' \<and> imgSrcAttr e = Some s0 \<and>
         resolveSrc pf b s0 = Resolved (src i)"
    by (rule extractImages_origin)
next
  fix ls l assume "extractLinks pf doc b = Inr ls" "l \<in> set ls"
  then show "\<exists>e\<in>set doc. \<exists>h0. tagName e = ''a'' \<and> attr e ''href'' = Some h0 \<and>
         resolveHref pf b h0 = Resolved (href l)"
    by (rule extractLinks_origin)
next
  fix r uo h
  assume a: "startsWith r ''/''" "parseURL pf b = Some uo"
    and h: "h = protocol uo @ ''//'' @ host uo @ r"
  show "resolveSrc pf b r = Resolved h" unfolding h by (rule resolve_rooted(1)[OF a])
  show "resolveHref pf b r = Resolved h" unfolding h by (rule resolve_rooted(2)[OF a])
next
  fix r assume a: "\<not> startsWith r ''/''" "startsWith r ''http''"
  show "resolveSrc pf b r = Resolved r" using a by (simp add: resolveSrc_def)
  show "resolveHref pf b r = Resolved r" using a by (simp add: resolveHref_def)
next
  fix r h assume a: "\<not> startsWith r ''/''" "\<not> startsWith r ''http''" "resolveURL pf r b = Some h"
  show "resolveSrc pf b r = Resolved h" using a by (simp add: resolveSrc_def)
  show "resolveHref pf b r = Resolved h" if "\<not> startsWith r ''mailto''" "\<not> startsWith r ''tel''"
    using a that by (simp add: resolveHref_def)
next
  fix e s0 pre post
  assume "doc = pre @ e # post" "imgSrcAttr e = Some s0" "\<not> startsWith s0 ''/''"
    "\<not> startsWith s0 ''http''" "resolveURL pf s0 b = None"
  then show "extractImages pf doc b = extractImages pf (pre @ post) b"
    using extractImages_drop by simp
next
  fix e h0 pre post
  assume "doc = pre @ e # post" "attr e ''href'' = Some h0" "\<not> startsWith h0 ''/''"
    "\<not> startsWith h0 ''http''" "\<not> startsWith h0 ''mailto''" "\<not> startsWith h0 ''tel''"
    "resolveURL pf h0 b = None"
  then show "extractLinks pf doc b = extractLinks pf (pre @ post) b"
    using extractLinks_drop by simp
qed

theorem relative_references_resolved_witness:
  "extractImages (examplePlatform []) mixedRefsDoc ''https://example.com'' =
     extractImages (examplePlatform [])
       [node ''img'' [(''src'', ''photo.png'')] [], node ''img'' [(''src'', ''/b.png'')] []]
       ''https://example.com'' \<and>
   extractImages (examplePlatform []) mixedRefsDoc ''https://example.com'' =
     Inr [\<lparr>src = ''https://example.com/photo.png'', alt = []\<rparr>,
          \<lparr>src = ''https://example.com/b.png'', alt = []\<rparr>] \<and>
   resolveSrc (examplePlatform []) ''https://example.com'' ''/b.png'' =
     Resolved ''https://example.com/b.png'' \<and>
   resolveURL (examplePlatform []) ''/b.png'' ''https://example.com'' = Some ''https://example.com/b.png''"
proof -
  let ?p = "examplePlatform []" and ?b = "''https://example.com''"
  let ?pre = "[node ''img'' [(''src'', ''photo.png'')] []]"
  let ?e = "node ''img'' [(''src'', ''ftp://'')] []"
  let ?post = "[node ''img'' [(''src'', ''/b.png'')] []]"
  note c = relative_references_resolved[of ?p ?b mixedRefsDoc]
  have d: "mixedRefsDoc = ?pre @ ?e # ?post" by (simp add: mixedRefsDoc_def)
  have h: "imgSrcAttr ?e = Some ''ftp://''" "\<not> startsWith ''ftp://'' ''/''"
    "\<not> startsWith ''ftp://'' ''http''" "resolveURL ?p ''ftp://'' ?b = None"
    by code_simp+
  from c[THEN conjunct2, THEN conjunct2, THEN conjunct2, THEN conjunct2, THEN conjunct2, THEN conjunct2,
         THEN conjunct1, rule_format, OF d h]
  have r1: "extractImages ?p mixedRefsDoc ?b = extractImages ?p (?pre @ ?post) ?b" .
  have pu: "parseURL ?p ?b = Some exampleURL" by code_simp
  from c[THEN conjunct1, rule_format, OF pu]
  obtain imgs where i: "extractImages ?p mixedRefsDoc ?b = Inr imgs" by blast
  have r2: "extractImages ?p (?pre @ ?post) ?b =
     Inr [\<lparr>src = ''https://example.com/photo.png'', alt = []\<rparr>,
          \<lparr>src = ''https://example.com/b.png'', alt = []\<rparr>]"
    by code_simp
  have s: "startsWith ''/b.png'' ''/''" by code_simp
  have ru: "resolveURL ?p ''/b.png'' ?b = Some ''https://example.com/b.png''" by code_simp
  have eq: "''https://example.com/b.png'' = protocol exampleURL @ ''//'' @ host exampleURL @ ''/b.png''"
    by code_simp
  from c[THEN conjunct2, THEN conjunct2, THEN conjunct2, THEN conjunct1, rule_format, OF s pu ru eq]
  have r3: "resolveSrc ?p ?b ''/b.png'' = Resolved ''https://example.com/b.png''" by simp
  from r1 r2 r3 ru i show ?thesis by simp
qed

text \<open>
  The claim as stated fails in four ways. A relative reference that begins with
  \<open>http\<close> is not resolved: \<open>http.png\<close>, which the URL constructor resolves to
  \<open>https://example.com/http.png\<close>, is extracted as written. A reference that begins
  with \<open>/\<close> is put after the scheme and host of the base as it is written, which is not
  always its standard resolution: \<open>//cdn.example.org/a.png\<close> names another host, and
  the path \<open>/a/../b.png\<close> is \<open>/b.png\<close>. And with a base URL that the constructor
  rejects, a reference that begins with \<open>/\<close> makes the whole extraction throw:
  \<open>new URL(baseUrl)\<close> stands outside the \<open>try\<close>.
\<close>

theorem references_not_resolved_as_standard:
  "extractImages (examplePlatform []) [node ''img'' [(''src'', ''http.png'')] []] ''https://example.com'' =
     Inr [\<lparr>src = ''http.png'', alt = []\<rparr>] \<and>
   resolveURL (examplePlatform []) ''http.png'' ''https://example.com'' = Some ''https://example.com/http.png'' \<and>
   extractImages (examplePlatform []) [node ''img'' [(''src'', ''//cdn.example.org/a.png'')] []]
       ''https://example.com'' =
     Inr [\<lparr>src = ''https://example.com//cdn.example.org/a.png'', alt = []\<rparr>] \<and>
   resolveURL (examplePlatform []) ''//cdn.example.org/a.png'' ''https://example.com'' =
     Some ''https://cdn.example.org/a.png'' \<and>
   extractImages (examplePlatform []) [node ''img'' [(''src'', ''/a/../b.png'')] []]
       ''https://example.com'' =
     Inr [\<lparr>src = ''https://example.com/a/../b.png'', alt = []\<rparr>] \<and>
   resolveURL (examplePlatform []) ''/a/../b.png'' ''https://example.com'' =
     Some ''https://example.com/b.png'' \<and>
   extractImages (examplePlatform []) [node ''img'' [(''src'', ''/a.png'')] []] ''null'' = Inl InvalidURL"
  by code_simp

section \<open>Title\<close>

lemma pageTitle_nonempty: "pageTitle doc \<noteq> []"
  by (simp add: pageTitle_def Let_def)

text \<open>
  C5, as the code has it. The title is the white-space-normalised combined text of all
  title elements of the document, in document order (the words of the text joined by
  single spaces), and the sentinel \<open>No title found\<close> when that is empty: in particular
  when the document has no title element. For a document with one title element it is
  the normalised text of that element; \<open>  Hello   World \<close> gives \<open>Hello World\<close>.
  The title is never empty.
\<close>

theorem title_is_normalised_combined_text:
  "(\<forall>r resp. scrapeWebpage pf u = Inr r \<longrightarrow> httpGet pf u = Inr resp \<longrightarrow>
      title r =
        (if normalizeSpace (concat (map textContent (selectTag ''title'' (data resp)))) = []
         then ''No title found''
         else normalizeSpace (concat (map textContent (selectTag ''title'' (data resp))))) \<and>
      title r \<noteq> [] \<and>
      (selectTag ''title'' (data resp) = [] \<longrightarrow> title r = ''No title found'') \<and>
      (\<forall>e. selectTag ''title'' (data resp) = [e] \<longrightarrow>
         title r = (if normalizeSpace (textContent e) = [] then ''No title found''
                    else normalizeSpace (textContent e)))) \<and>
   cleanText s = normalizeSpace s \<and>
   cleanText ''  Hello   World '' = ''Hello World''"
proof -
  have t: "title r = pageTitle (data resp)"
    if "scrapeWebpage pf u = Inr r" "httpGet pf u = Inr resp" for r resp
    using scrape_fields[OF that(1)] that(2) by auto
  have p: "pageTitle doc =
        (if normalizeSpace (concat (map textContent (selectTag ''title'' doc))) = []
         then ''No title found''
         else normalizeSpace (concat (map textContent (selectTag ''title'' doc))))" for doc
    by (simp add: pageTitle_def Let_def selText_def cleanText_normalizeSpace)
  have n: "normalizeSpace [] = []" by (simp add: normalizeSpace_def)
  have e: "cleanText ''  Hello   World '' = ''Hello World''" by code_simp
  show ?thesis
  proof (intro conjI allI impI)
    fix r resp assume a: "scrapeWebpage pf u = Inr r" "httpGet pf u = Inr resp"
    show "title r =
        (if normalizeSpace (concat (map textContent (selectTag ''title'' (data resp)))) = []
         then ''No title found''
         else normalizeSpace (concat (map textContent (selectTag ''title'' (data resp)))))"
      unfolding t[OF a] by (rule p)
    show "title r \<noteq> []" unfolding t[OF a] by (rule pageTitle_nonempty)
    show "title r = ''No title found''" if "selectTag ''title'' (data resp) = []"
      unfolding t[OF a] p using that n by simp
    show "title r = (if normalizeSpace (textContent e) = [] then ''No title found''
                    else normalizeSpace (textContent e))"
      if "selectTag ''title'' (data resp) = [e]" for e
      unfolding t[OF a] p using that by simp
  next
    show "cleanText s = normalizeSpace s" by (rule cleanText_normalizeSpace)
    show "cleanText ''  Hello   World '' = ''Hello World''" by (rule e)
  qed
qed

theorem title_is_normalised_combined_text_witness:
  "\<exists>r. scrapeWebpage (examplePlatform helloDoc) ''https://example.com/page'' = Inr r \<and>
       title r = ''Hello World''"
proof -
  let ?p = "examplePlatform helloDoc" and ?u = "''https://example.com/page''"
  let ?resp = "\<lparr>data = helloDoc, status = 200, contentTypeHeader = Some ''text/html''\<rparr>"
  have "\<not> isl (scrapeWebpage ?p ?u)" by code_simp
  then obtain r where r: "scrapeWebpage ?p ?u = Inr r"
    by (cases "scrapeWebpage ?p ?u") auto
  have g: "httpGet ?p ?u = Inr ?resp" by code_simp
  have s: "selectTag ''title'' (data ?resp) = [node ''title'' [] ''  Hello   World '']" by code_simp
  have n: "normalizeSpace (textContent (node ''title'' [] ''  Hello   World '')) = ''Hello World''"
    by code_simp
  from title_is_normalised_combined_text[of ?p ?u, THEN conjunct1, rule_format, OF r g, THEN conjunct2, THEN conjunct2, THEN conjunct2,
          rule_format, OF s]
  have "title r = ''Hello World''" unfolding n by simp
  with r show ?thesis by blast
qed

text \<open>
  The claim as stated fails on a document with two title elements (an inline SVG carries
  its own): \<open>.text()\<close> of the selection combines both texts, so the title is
  \<open>HomeMenu\<close> where the first title element reads \<open>Home\<close>.
\<close>

theorem title_combines_all_title_elements:
  "map_sum id title (scrapeWebpage (examplePlatform twoTitlesDoc) ''https://example.com/page'') =
     Inr ''HomeMenu'' \<and>
   cleanText (textContent (hd (selectTag ''title'' twoTitlesDoc))) = ''Home''"
  by code_simp

end
